theory Spec2Isabelle
  imports Main
begin

section \<open>Constants and data model of \<^verbatim>\<open>src/main.py\<close>\<close>

text \<open>
  A colour is an RGB tuple; a grid cell holds a colour and is empty exactly when it holds
  \<^verbatim>\<open>BLACK\<close>.  A shape is a list of rows of integers (a cell is occupied when it is
  truthy, that is, not 0).
\<close>

type_synonym color = "nat \<times> nat \<times> nat"
type_synonym grid = "color list list"
type_synonym shape = "int list list"

definition GRID_COLUMNS :: nat where
  "GRID_COLUMNS = 10"

definition GRID_ROWS :: nat where
  "GRID_ROWS = 20"

definition BLOCK_SIZE :: int where
  "BLOCK_SIZE = 30"

definition GAME_WIDTH :: int where
  "GAME_WIDTH = int GRID_COLUMNS * BLOCK_SIZE"

definition BLACK :: color where
  "BLACK = (20, 20, 20)"

definition SHAPES :: "shape list" where
  "SHAPES =
    [ [[1, 1, 1, 1]],
      [[1, 1], [1, 1]],
      [[1, 1, 1], [0, 1, 0]],
      [[1, 1, 1], [1, 0, 0]],
      [[1, 1, 1], [0, 0, 1]],
      [[1, 1, 0], [0, 1, 1]],
      [[0, 1, 1], [1, 1, 0]] ]"

definition SHAPE_COLORS :: "color list" where
  "SHAPE_COLORS =
    [ (0, 255, 255),
      (255, 215, 0),
      (128, 0, 128),
      (255, 140, 0),
      (30, 144, 255),
      (50, 205, 50),
      (220, 20, 60) ]"

text \<open>The class \<^verbatim>\<open>Tetromino\<close>; the fields of the record are the attributes of the object.\<close>

record piece =
  shape :: shape
  color :: color
  x :: int
  y :: int

text \<open>
  \<^verbatim>\<open>Tetromino.__init__\<close>: \<^verbatim>\<open>random.choice(SHAPES)\<close> is the argument \<open>k\<close>, the
  position of the chosen shape in \<^verbatim>\<open>SHAPES\<close> (\<open>k < 7\<close>).
\<close>

definition Tetromino :: "nat \<Rightarrow> piece" where
  "Tetromino k =
     \<lparr> shape = SHAPES ! k,
       color = SHAPE_COLORS ! k,
       x = GAME_WIDTH div BLOCK_SIZE div 2 - int (length (SHAPES ! k ! 0)) div 2,
       y = 0 \<rparr>"

text \<open>\<^verbatim>\<open>Tetromino.move\<close>.\<close>

definition move :: "int \<Rightarrow> int \<Rightarrow> piece \<Rightarrow> piece" where
  "move dx dy p = p\<lparr> x := x p + dx, y := y p + dy \<rparr>"

text \<open>
  \<^verbatim>\<open>zip(*rows)\<close>: the \<open>j\<close>-th result collects the \<open>j\<close>-th element of every row; the
  result is as long as the shortest row, and empty when there is no row at all.
\<close>

fun min_len :: "'a list list \<Rightarrow> nat" where
  "min_len [] = 0"
| "min_len [r] = length r"
| "min_len (r # rs) = min (length r) (min_len rs)"

definition zip_star :: "'a list list \<Rightarrow> 'a list list" where
  "zip_star rows = map (\<lambda>j. map (\<lambda>row. row ! j) rows) [0..<min_len rows]"

text \<open>\<^verbatim>\<open>Tetromino.rotate\<close>: \<^verbatim>\<open>self.shape = list(zip(*self.shape[::-1]))\<close>.\<close>

definition rotate :: "piece \<Rightarrow> piece" where
  "rotate p = p\<lparr> shape := zip_star (rev (shape p)) \<rparr>"

section \<open>The board: validity, locking, line clearing\<close>

text \<open>
  The only exception the modelled code can raise is \<^verbatim>\<open>IndexError\<close>.  An index of a
  Python list may be negative and then counts from the end of the list.
\<close>

datatype error = IndexError

definition py_index :: "nat \<Rightarrow> int \<Rightarrow> error + nat" where
  "py_index n i =
     (if 0 \<le> i \<and> i < int n then Inr (nat i)
      else if - int n \<le> i \<and> i < 0 then Inr (nat (int n + i))
      else Inl IndexError)"

definition getitem :: "'a list \<Rightarrow> int \<Rightarrow> error + 'a" where
  "getitem xs i = (case py_index (length xs) i of Inl e \<Rightarrow> Inl e | Inr k \<Rightarrow> Inr (xs ! k))"

definition setitem :: "'a list \<Rightarrow> int \<Rightarrow> 'a \<Rightarrow> error + 'a list" where
  "setitem xs i v = (case py_index (length xs) i of Inl e \<Rightarrow> Inl e | Inr k \<Rightarrow> Inr (xs[k := v]))"

text \<open>
  The loops \<^verbatim>\<open>for y, row in enumerate(shape): for x, cell in enumerate(row): if cell:\<close>
  of \<^verbatim>\<open>is_valid_move\<close>, \<^verbatim>\<open>lock_piece\<close> and \<^verbatim>\<open>make_move\<close> visit the occupied cells
  row by row, each row from left to right; \<open>occupied_cells\<close> lists their \<open>(x, y)\<close> in
  that order.
\<close>

definition occupied_cells :: "shape \<Rightarrow> (nat \<times> nat) list" where
  "occupied_cells s =
     concat (map (\<lambda>(cy, row). map (\<lambda>(cx, cell). (cx, cy))
                    (filter (\<lambda>(cx, cell). cell \<noteq> 0) (enumerate 0 row)))
                 (enumerate 0 s))"

text \<open>
  The body of the loops of \<^verbatim>\<open>is_valid_move\<close> at one occupied cell: \<open>Inr False\<close> is
  \<^verbatim>\<open>return False\<close>, \<open>Inr True\<close> lets the loop go on.  The test
  \<^verbatim>\<open>new_x < 0 or new_x >= len(grid[0]) or new_y >= len(grid)\<close> reads \<^verbatim>\<open>grid[0]\<close>
  only when \<^verbatim>\<open>new_x >= 0\<close>.
\<close>

definition check_cell :: "grid \<Rightarrow> int \<Rightarrow> int \<Rightarrow> error + bool" where
  "check_cell g new_x new_y =
     (if new_x < 0 then Inr False
      else case getitem g 0 of
        Inl e \<Rightarrow> Inl e
      | Inr row0 \<Rightarrow>
          if new_x \<ge> int (length row0) \<or> new_y \<ge> int (length g) then Inr False
          else if new_y \<ge> 0 then
            (case getitem g new_y of
               Inl e \<Rightarrow> Inl e
             | Inr row \<Rightarrow>
                 (case getitem row new_x of
                    Inl e \<Rightarrow> Inl e
                  | Inr c \<Rightarrow> if c \<noteq> BLACK then Inr False else Inr True))
          else Inr True)"

fun check_cells :: "grid \<Rightarrow> piece \<Rightarrow> int \<Rightarrow> int \<Rightarrow> (nat \<times> nat) list \<Rightarrow> error + bool" where
  "check_cells g p dx dy [] = Inr True"
| "check_cells g p dx dy ((cx, cy) # cs) =
     (case check_cell g (x p + int cx + dx) (y p + int cy + dy) of
        Inl e \<Rightarrow> Inl e
      | Inr ok \<Rightarrow> if ok then check_cells g p dx dy cs else Inr False)"

text \<open>
  \<^verbatim>\<open>TetrisGame.is_valid_move(piece, dx, dy, grid)\<close>.  The grid is always passed here;
  \<^verbatim>\<open>run\<close> leaves it out and gets the grid of the player who owns the piece.
\<close>

definition is_valid_move :: "piece \<Rightarrow> int \<Rightarrow> int \<Rightarrow> grid \<Rightarrow> error + bool" where
  "is_valid_move p dx dy g = check_cells g p dx dy (occupied_cells (shape p))"

text \<open>The class \<^verbatim>\<open>TetrisPlayer\<close>; \<open>survival_time\<close> is kept in milliseconds.\<close>

record player =
  grid :: grid
  current_piece :: piece
  game_over :: bool
  score :: int
  survival_time :: int

text \<open>\<^verbatim>\<open>TetrisPlayer.reset\<close>, with the random choice of the first piece as argument.\<close>

definition reset_player :: "nat \<Rightarrow> player" where
  "reset_player k =
     \<lparr> grid = replicate GRID_ROWS (replicate GRID_COLUMNS BLACK),
       current_piece = Tetromino k,
       game_over = False,
       score = 0,
       survival_time = 0 \<rparr>"

text \<open>
  The first loop of \<^verbatim>\<open>lock_piece\<close>:
  \<^verbatim>\<open>if 0 <= grid_y < len(player.grid): player.grid[grid_y][grid_x] = color\<close>.  The
  column index is not checked, so it wraps when negative and raises beyond the row.
\<close>

definition write_cell :: "grid \<Rightarrow> int \<Rightarrow> int \<Rightarrow> color \<Rightarrow> error + grid" where
  "write_cell g grid_x grid_y c =
     (if 0 \<le> grid_y \<and> grid_y < int (length g) then
        (case setitem (g ! nat grid_y) grid_x c of
           Inl e \<Rightarrow> Inl e
         | Inr row \<Rightarrow> Inr (g[nat grid_y := row]))
      else Inr g)"

fun write_cells :: "piece \<Rightarrow> (nat \<times> nat) list \<Rightarrow> grid \<Rightarrow> error + grid" where
  "write_cells p [] g = Inr g"
| "write_cells p ((cx, cy) # cs) g =
     (case write_cell g (x p + int cx) (y p + int cy) (color p) of
        Inl e \<Rightarrow> Inl e
      | Inr g' \<Rightarrow> write_cells p cs g')"

definition write_piece :: "piece \<Rightarrow> grid \<Rightarrow> error + grid" where
  "write_piece p g = write_cells p (occupied_cells (shape p)) g"

text \<open>
  The second loop of \<^verbatim>\<open>lock_piece\<close>:
  \<^verbatim>\<open>for i, row in enumerate(player.grid[:]): if all(cell != BLACK for cell in row): del player.grid[i]; player.grid.insert(0, [BLACK for _ in range(len(row))]); lines_cleared += 1\<close>.
  The rows come from the snapshot \<open>rows\<close> taken before the loop, \<open>i\<close> is the index of
  the row in the snapshot, and the state of the loop is the live grid with the counter.
  \<^verbatim>\<open>del\<close> raises when the index is not in the live grid.
\<close>

definition is_full :: "color list \<Rightarrow> bool" where
  "is_full row = list_all (\<lambda>cell. cell \<noteq> BLACK) row"

definition del_row :: "grid \<Rightarrow> nat \<Rightarrow> error + grid" where
  "del_row g i = (if i < length g then Inr (take i g @ drop (Suc i) g) else Inl IndexError)"

fun clear_loop :: "nat \<Rightarrow> color list list \<Rightarrow> grid \<times> nat \<Rightarrow> error + grid \<times> nat" where
  "clear_loop i [] (g, lines_cleared) = Inr (g, lines_cleared)"
| "clear_loop i (row # rows) (g, lines_cleared) =
     (if is_full row then
        (case del_row g i of
           Inl e \<Rightarrow> Inl e
         | Inr g' \<Rightarrow>
             clear_loop (Suc i) rows (replicate (length row) BLACK # g', lines_cleared + 1))
      else clear_loop (Suc i) rows (g, lines_cleared))"

definition clear_lines :: "grid \<Rightarrow> error + grid \<times> nat" where
  "clear_lines g = clear_loop 0 g (g, 0)"

text \<open>\<^verbatim>\<open>TetrisGame.lock_piece(player)\<close>.\<close>

definition lock_piece :: "player \<Rightarrow> error + player" where
  "lock_piece pl =
     (case write_piece (current_piece pl) (grid pl) of
        Inl e \<Rightarrow> Inl e
      | Inr g1 \<Rightarrow>
          (case clear_lines g1 of
             Inl e \<Rightarrow> Inl e
           | Inr (g2, lines_cleared) \<Rightarrow>
               if lines_cleared > 0 then
                 (case getitem [40, 100, 300, 1200] (int lines_cleared - 1) of
                    Inl e \<Rightarrow> Inl e
                  | Inr points \<Rightarrow> Inr (pl\<lparr> grid := g2, score := score pl + points \<rparr>))
               else Inr (pl\<lparr> grid := g2 \<rparr>)))"


section \<open>The move search of the automated player\<close>

text \<open>
  A computation that may raise or may not return: \<open>None\<close> is a run that never returns,
  \<open>Some (Inl e)\<close> one that raises \<open>e\<close>.
\<close>

definition bind_c :: "(error + 'a) option \<Rightarrow> ('a \<Rightarrow> (error + 'b) option) \<Rightarrow> (error + 'b) option" where
  "bind_c m f = (case m of None \<Rightarrow> None | Some (Inl e) \<Rightarrow> Some (Inl e) | Some (Inr v) \<Rightarrow> f v)"

text \<open>A \<^verbatim>\<open>for\<close> loop over a fixed range, with the variables it updates as state.\<close>

fun for_each :: "'i list \<Rightarrow> ('i \<Rightarrow> 's \<Rightarrow> (error + 's) option) \<Rightarrow> 's \<Rightarrow> (error + 's) option" where
  "for_each [] body s = Some (Inr s)"
| "for_each (i # is) body s = bind_c (body i s) (\<lambda>s'. for_each is body s')"

text \<open>\<^verbatim>\<open>AIPlayer.calculate_board_height\<close>; \<open>n\<close> is \<^verbatim>\<open>len(grid)\<close> and \<open>y'\<close> the loop index.\<close>

fun board_height_loop :: "grid \<Rightarrow> nat \<Rightarrow> nat \<Rightarrow> int" where
  "board_height_loop [] n y' = 0"
| "board_height_loop (row # rows) n y' =
     (if list_ex (\<lambda>cell. cell \<noteq> BLACK) row then int n - int y'
      else board_height_loop rows n (Suc y'))"

definition calculate_board_height :: "grid \<Rightarrow> int" where
  "calculate_board_height g = board_height_loop g (length g) 0"

text \<open>\<^verbatim>\<open>AIPlayer.calculate_holes\<close>: the inner loop over the rows, then the loop over the columns.\<close>

fun holes_column :: "grid \<Rightarrow> nat \<Rightarrow> bool \<Rightarrow> int \<Rightarrow> error + int" where
  "holes_column [] cx found_block holes = Inr holes"
| "holes_column (row # rows) cx found_block holes =
     (case getitem row (int cx) of
        Inl e \<Rightarrow> Inl e
      | Inr cell \<Rightarrow>
          if cell \<noteq> BLACK then holes_column rows cx True holes
          else if found_block then holes_column rows cx found_block (holes + 1)
          else holes_column rows cx found_block holes)"

fun holes_loop :: "grid \<Rightarrow> nat list \<Rightarrow> int \<Rightarrow> error + int" where
  "holes_loop g [] holes = Inr holes"
| "holes_loop g (cx # cxs) holes =
     (case holes_column g cx False holes of
        Inl e \<Rightarrow> Inl e
      | Inr holes' \<Rightarrow> holes_loop g cxs holes')"

definition calculate_holes :: "grid \<Rightarrow> error + int" where
  "calculate_holes g =
     (case getitem g 0 of
        Inl e \<Rightarrow> Inl e
      | Inr row0 \<Rightarrow> holes_loop g [0..<length row0] 0)"

text \<open>\<^verbatim>\<open>AIPlayer.get_column_height\<close>.\<close>

fun column_height_loop :: "grid \<Rightarrow> nat \<Rightarrow> nat \<Rightarrow> nat \<Rightarrow> error + int" where
  "column_height_loop [] column n y' = Inr 0"
| "column_height_loop (row # rows) column n y' =
     (case getitem row (int column) of
        Inl e \<Rightarrow> Inl e
      | Inr cell \<Rightarrow>
          if cell \<noteq> BLACK then Inr (int n - int y')
          else column_height_loop rows column n (Suc y'))"

definition get_column_height :: "grid \<Rightarrow> nat \<Rightarrow> error + int" where
  "get_column_height g column = column_height_loop g column (length g) 0"

text \<open>\<^verbatim>\<open>AIPlayer.calculate_bumpiness\<close>: the list of the column heights, then the sum.\<close>

fun column_heights :: "grid \<Rightarrow> nat list \<Rightarrow> error + int list" where
  "column_heights g [] = Inr []"
| "column_heights g (cx # cxs) =
     (case get_column_height g cx of
        Inl e \<Rightarrow> Inl e
      | Inr h \<Rightarrow>
          (case column_heights g cxs of
             Inl e \<Rightarrow> Inl e
           | Inr hs \<Rightarrow> Inr (h # hs)))"

definition calculate_bumpiness :: "grid \<Rightarrow> error + int" where
  "calculate_bumpiness g =
     (case getitem g 0 of
        Inl e \<Rightarrow> Inl e
      | Inr row0 \<Rightarrow>
          (case column_heights g [0..<length row0] of
             Inl e \<Rightarrow> Inl e
           | Inr hs \<Rightarrow> Inr (\<Sum>i\<leftarrow>[0..<length hs - 1]. \<bar>hs ! i - hs ! (i + 1)\<bar>)))"

text \<open>
  The evaluation of a test grid in \<^verbatim>\<open>make_move\<close>:
  \<^verbatim>\<open>score = height * 2 + holes * 3 + bumpiness\<close>.
\<close>

definition evaluate :: "grid \<Rightarrow> error + int" where
  "evaluate g =
     (let height = calculate_board_height g in
      case calculate_holes g of
        Inl e \<Rightarrow> Inl e
      | Inr holes \<Rightarrow>
          (case calculate_bumpiness g of
             Inl e \<Rightarrow> Inl e
           | Inr bumpiness \<Rightarrow> Inr (height * 2 + holes * 3 + bumpiness)))"

text \<open>
  \<^verbatim>\<open>make_move\<close> works on copies of the rows of the live grid and writes into the rows of
  its test grid.  To follow which row object a write reaches, the rows live in a store
  (a row object is its position in the store) and a grid is the list of its rows'
  positions.  \<^verbatim>\<open>[row.copy() for row in rows]\<close> puts a new object into the store for
  every row.
\<close>

type_synonym store = "color list list"

definition rows_of :: "store \<Rightarrow> nat list \<Rightarrow> grid" where
  "rows_of h refs = map (\<lambda>a. h ! a) refs"

definition copy_rows :: "store \<Rightarrow> nat list \<Rightarrow> store \<times> nat list" where
  "copy_rows h refs = (h @ map (\<lambda>a. h ! a) refs, [length h..<length h + length refs])"

text \<open>
  The loop of \<^verbatim>\<open>make_move\<close> that writes the dropped piece into the test grid:
  \<^verbatim>\<open>if 0 <= grid_y < len(test_grid): test_grid[grid_y][grid_x] = temp_piece.color\<close>.
\<close>

definition store_cell :: "store \<Rightarrow> nat list \<Rightarrow> int \<Rightarrow> int \<Rightarrow> color \<Rightarrow> error + store" where
  "store_cell h refs grid_x grid_y c =
     (if 0 \<le> grid_y \<and> grid_y < int (length refs) then
        (case setitem (h ! (refs ! nat grid_y)) grid_x c of
           Inl e \<Rightarrow> Inl e
         | Inr row \<Rightarrow> Inr (h[refs ! nat grid_y := row]))
      else Inr h)"

fun store_cells :: "piece \<Rightarrow> (nat \<times> nat) list \<Rightarrow> nat list \<Rightarrow> store \<Rightarrow> error + store" where
  "store_cells p [] refs h = Inr h"
| "store_cells p ((cx, cy) # cs) refs h =
     (case store_cell h refs (x p + int cx) (y p + int cy) (color p) of
        Inl e \<Rightarrow> Inl e
      | Inr h' \<Rightarrow> store_cells p cs refs h')"

text \<open>
  The simulated drop:
  \<^verbatim>\<open>while game.is_valid_move(temp_piece, 0, 1, grid_copy): temp_piece.y += 1\<close>.
\<close>

partial_function (option) drop_piece :: "grid \<Rightarrow> piece \<Rightarrow> (error + piece) option" where
  "drop_piece g temp_piece =
     (case is_valid_move temp_piece 0 1 g of
        Inl e \<Rightarrow> Some (Inl e)
      | Inr ok \<Rightarrow>
          if ok then drop_piece g (temp_piece\<lparr> y := y temp_piece + 1 \<rparr>)
          else Some (Inr temp_piece))"

text \<open>
  \<^verbatim>\<open>score < best_score\<close>, where \<^verbatim>\<open>best_score\<close> starts as \<^verbatim>\<open>float('inf')\<close> (here
  \<open>None\<close>) and is an integer from the first update on.
\<close>

definition improves :: "int \<Rightarrow> int option \<Rightarrow> bool" where
  "improves sc best_score = (case best_score of None \<Rightarrow> True | Some b \<Rightarrow> sc < b)"

text \<open>
  The body of the loop \<^verbatim>\<open>for dx in range(-5, 6)\<close>.  Its state is the store, the best
  score and the best move (rotation and column); \<open>live\<close> are the rows of
  \<^verbatim>\<open>self.grid\<close>, \<open>cur\<close> is \<^verbatim>\<open>self.current_piece\<close>.
\<close>

definition try_position ::
  "nat list \<Rightarrow> piece \<Rightarrow> piece \<Rightarrow> nat \<Rightarrow> int \<Rightarrow> store \<times> int option \<times> nat \<times> int
     \<Rightarrow> (error + store \<times> int option \<times> nat \<times> int) option" where
  "try_position live cur test_piece rotation dx st =
     (case st of (h, best_score, best_move) \<Rightarrow>
        (let test_piece' = test_piece\<lparr> x := x cur + dx, y := y cur \<rparr>;
             (h1, grid_copy) = copy_rows h live
         in bind_c (drop_piece (rows_of h1 grid_copy) test_piece') (\<lambda>temp_piece.
            bind_c (Some (is_valid_move temp_piece 0 0 (rows_of h1 grid_copy))) (\<lambda>ok.
              if ok then
                (let (h2, test_grid) = copy_rows h1 grid_copy
                 in bind_c (Some (store_cells temp_piece (occupied_cells (shape temp_piece))
                                    test_grid h2)) (\<lambda>h3.
                    bind_c (Some (evaluate (rows_of h3 test_grid))) (\<lambda>sc.
                      if improves sc best_score
                      then Some (Inr (h3, Some sc, (rotation, x temp_piece)))
                      else Some (Inr (h3, best_score, best_move)))))
              else Some (Inr (h1, best_score, best_move))))))"

text \<open>
  The body of the loop \<^verbatim>\<open>for rotation in range(4)\<close>: the test piece gets the shape,
  colour and position of the current piece (its own random shape is overwritten) and
  is rotated \<open>rotation\<close> times.
\<close>

definition try_rotation ::
  "nat list \<Rightarrow> piece \<Rightarrow> nat \<Rightarrow> store \<times> int option \<times> nat \<times> int
     \<Rightarrow> (error + store \<times> int option \<times> nat \<times> int) option" where
  "try_rotation live cur rotation st =
     (let test_piece = (rotate ^^ rotation) cur
      in for_each [- 5..5] (try_position live cur test_piece rotation) st)"

definition search :: "nat list \<Rightarrow> piece \<Rightarrow> store \<Rightarrow> (error + store \<times> int option \<times> nat \<times> int) option" where
  "search live cur h = for_each [0..<4] (try_rotation live cur) (h, None, (0, x cur))"

text \<open>
  \<^verbatim>\<open>AIPlayer.make_move\<close>.  The rows of the player's grid are the objects of the store
  at the start; after the search the grid of the player is read back from the store
  through the same objects, and the best move is applied to the current piece.
\<close>

definition make_move :: "player \<Rightarrow> (error + player) option" where
  "make_move pl =
     (let h0 = grid pl; live = [0..<length (grid pl)]
      in bind_c (search live (current_piece pl) h0) (\<lambda>(h, best_score, (rotation, best_x)).
           Some (Inr (pl\<lparr> grid := rows_of h live,
                          current_piece := ((rotate ^^ rotation) (current_piece pl))\<lparr> x := best_x \<rparr> \<rparr>))))"

section \<open>The session loop\<close>

text \<open>
  One iteration of the loop of \<^verbatim>\<open>TetrisGame.run\<close> gets from outside: the events of
  \<^verbatim>\<open>pygame.event.get()\<close>, the clock, and the shapes drawn by \<^verbatim>\<open>random.choice\<close>.  An
  event is \<^verbatim>\<open>QUIT\<close> or a key press; \<^verbatim>\<open>K_ESCAPE\<close> and \<^verbatim>\<open>K_r\<close> carry the answer of
  \<^verbatim>\<open>show_confirmation_dialog\<close>, and \<^verbatim>\<open>K_r\<close> the two shapes drawn by the reset.
\<close>

datatype event =
    QUIT
  | K_ESCAPE bool
  | K_SPACE
  | K_p
  | K_r bool nat nat
  | K_LEFT
  | K_RIGHT
  | K_DOWN
  | K_UP
  | OTHER

text \<open>
  The state of \<^verbatim>\<open>run\<close>: the two players, \<^verbatim>\<open>self.game_over\<close> (here \<open>session_over\<close>)
  and the local variable \<^verbatim>\<open>paused\<close>.  The other local variables concern the music and
  the clock.
\<close>

record game =
  human_player :: player
  ai_player :: player
  session_over :: bool
  paused :: bool

text \<open>
  The loop body either goes on to the next statement or leaves \<^verbatim>\<open>run\<close> by
  \<^verbatim>\<open>return\<close>.
\<close>

datatype 'a flow = Continue 'a | Returned 'a

text \<open>
\<^verbatim>\<open>TetrisGame.reset\<close>.
\<close>

definition reset :: "nat \<Rightarrow> nat \<Rightarrow> game \<Rightarrow> game" where
  "reset kh ka g = g\<lparr> human_player := reset_player kh, ai_player := reset_player ka,
                      session_over := False \<rparr>"

text \<open>
  The arrow keys: \<^verbatim>\<open>if self.is_valid_move(piece, dx, dy): piece.move(dx, dy)\<close>, and the
  rotation key, which tests a rotated copy of the piece before rotating the piece.
\<close>

definition try_move :: "int \<Rightarrow> int \<Rightarrow> player \<Rightarrow> error + player" where
  "try_move dx dy pl =
     (case is_valid_move (current_piece pl) dx dy (grid pl) of
        Inl e \<Rightarrow> Inl e
      | Inr ok \<Rightarrow> Inr (if ok then pl\<lparr> current_piece := move dx dy (current_piece pl) \<rparr> else pl))"

definition try_rotate :: "player \<Rightarrow> error + player" where
  "try_rotate pl =
     (let rotated_piece = rotate (current_piece pl)
      in case is_valid_move rotated_piece 0 0 (grid pl) of
           Inl e \<Rightarrow> Inl e
         | Inr ok \<Rightarrow> Inr (if ok then pl\<lparr> current_piece := rotate (current_piece pl) \<rparr> else pl))"

text \<open>
  The body of \<^verbatim>\<open>for event in pygame.event.get()\<close>.  The keys of the human player act
  only under \<^verbatim>\<open>if not paused\<close>.
\<close>

definition human_key :: "(player \<Rightarrow> error + player) \<Rightarrow> game \<Rightarrow> error + game flow" where
  "human_key act g =
     (if \<not> paused g then
        (case act (human_player g) of
           Inl e \<Rightarrow> Inl e
         | Inr pl \<Rightarrow> Inr (Continue (g\<lparr> human_player := pl \<rparr>)))
      else Inr (Continue g))"

fun handle_event :: "event \<Rightarrow> game \<Rightarrow> error + game flow" where
  "handle_event QUIT g = Inr (Returned g)"
| "handle_event (K_ESCAPE confirm) g =
     (if confirm then Inr (Returned (g\<lparr> session_over := True \<rparr>)) else Inr (Continue g))"
| "handle_event K_SPACE g = Inr (Continue g)"
| "handle_event K_p g = Inr (Continue (g\<lparr> paused := \<not> paused g \<rparr>))"
| "handle_event (K_r confirm kh ka) g = Inr (Continue (if confirm then reset kh ka g else g))"
| "handle_event K_LEFT g = human_key (try_move (- 1) 0) g"
| "handle_event K_RIGHT g = human_key (try_move 1 0) g"
| "handle_event K_DOWN g = human_key (try_move 0 1) g"
| "handle_event K_UP g = human_key try_rotate g"
| "handle_event OTHER g = Inr (Continue g)"

fun handle_events :: "event list \<Rightarrow> game \<Rightarrow> error + game flow" where
  "handle_events [] g = Inr (Continue g)"
| "handle_events (e # es) g =
     (case handle_event e g of
        Inl err \<Rightarrow> Inl err
      | Inr (Returned g') \<Rightarrow> Inr (Returned g')
      | Inr (Continue g') \<Rightarrow> handle_events es g')"

text \<open>
  The inputs of one iteration.  \<open>fall_due\<close> is the outcome of the floating-point test
  \<^verbatim>\<open>current_time - last_fall_time > fall_speed * 1000\<close>, \<open>elapsed\<close> is
  \<^verbatim>\<open>current_time - self.start_time\<close>, and \<open>human_next\<close>, \<open>ai_next\<close> are the shapes drawn
  when a piece locks.
\<close>

record tick_input =
  events :: "event list"
  fall_due :: bool
  elapsed :: int
  human_next :: nat
  ai_next :: nat

text \<open>
  The gravity step of one player: move the piece down when it can, else lock it, spawn
  the next piece and set \<^verbatim>\<open>game_over\<close> when the new piece is not valid where it
  spawns.  \<open>fall_both\<close> does it for the human player, then for the automated player, and
  sets both survival times.
\<close>

definition fall_step :: "nat \<Rightarrow> player \<Rightarrow> error + player" where
  "fall_step k pl =
     (case is_valid_move (current_piece pl) 0 1 (grid pl) of
        Inl e \<Rightarrow> Inl e
      | Inr ok \<Rightarrow>
          if ok then Inr (pl\<lparr> current_piece := move 0 1 (current_piece pl) \<rparr>)
          else
            (case lock_piece pl of
               Inl e \<Rightarrow> Inl e
             | Inr pl1 \<Rightarrow>
                 (let pl2 = pl1\<lparr> current_piece := Tetromino k \<rparr>
                  in case is_valid_move (current_piece pl2) 0 0 (grid pl2) of
                       Inl e \<Rightarrow> Inl e
                     | Inr ok' \<Rightarrow> Inr (if \<not> ok' then pl2\<lparr> game_over := True \<rparr> else pl2))))"

definition fall_both :: "tick_input \<Rightarrow> game \<Rightarrow> error + game" where
  "fall_both inp g =
     (case fall_step (human_next inp) (human_player g) of
        Inl e \<Rightarrow> Inl e
      | Inr h \<Rightarrow>
          (case fall_step (ai_next inp) (ai_player g) of
             Inl e \<Rightarrow> Inl e
           | Inr a \<Rightarrow>
               Inr (g\<lparr> human_player := h\<lparr> survival_time := elapsed inp \<rparr>,
                       ai_player := a\<lparr> survival_time := elapsed inp \<rparr> \<rparr>)))"

text \<open>
  One iteration of \<^verbatim>\<open>while not self.game_over\<close>: the events, \<^verbatim>\<open>continue\<close> when
  paused, the move of the automated player, gravity when it is due, and
  \<^verbatim>\<open>if self.human_player.game_over or self.ai_player.game_over: self.game_over = True\<close>.
\<close>

definition tick :: "tick_input \<Rightarrow> game \<Rightarrow> (error + game flow) option" where
  "tick inp g =
     (case handle_events (events inp) g of
        Inl e \<Rightarrow> Some (Inl e)
      | Inr (Returned g1) \<Rightarrow> Some (Inr (Returned g1))
      | Inr (Continue g1) \<Rightarrow>
          if paused g1 then Some (Inr (Continue g1))
          else
            bind_c (make_move (ai_player g1)) (\<lambda>ai.
            bind_c (Some (if fall_due inp then fall_both inp (g1\<lparr> ai_player := ai \<rparr>)
                          else Inr (g1\<lparr> ai_player := ai \<rparr>))) (\<lambda>g2.
              Some (Inr (Continue
                (if game_over (human_player g2) \<or> game_over (ai_player g2)
                 then g2\<lparr> session_over := True \<rparr> else g2))))))"

text \<open>
  The loop of \<^verbatim>\<open>run\<close> over the inputs of its iterations: it ends by its condition
  (\<^verbatim>\<open>save_scores\<close> and the game-over screen follow), by \<^verbatim>\<open>return\<close>, by an exception,
  it hangs inside an iteration, or it is still running when the inputs are used up.
  \<open>run_states\<close> lists the state at the start and the state after every iteration that
  was run.
\<close>

datatype outcome = Finished game | Quit game | Crashed error | Hangs | Running game

fun run_loop :: "tick_input list \<Rightarrow> game \<Rightarrow> outcome" where
  "run_loop [] g = (if session_over g then Finished g else Running g)"
| "run_loop (inp # inps) g =
     (if session_over g then Finished g
      else case tick inp g of
        None \<Rightarrow> Hangs
      | Some (Inl e) \<Rightarrow> Crashed e
      | Some (Inr (Returned g')) \<Rightarrow> Quit g'
      | Some (Inr (Continue g')) \<Rightarrow> run_loop inps g')"

fun run_states :: "tick_input list \<Rightarrow> game \<Rightarrow> game list" where
  "run_states [] g = [g]"
| "run_states (inp # inps) g =
     g # (if session_over g then []
          else case tick inp g of
            Some (Inr (Continue g')) \<Rightarrow> run_states inps g'
          | Some (Inr (Returned g')) \<Rightarrow> [g']
          | _ \<Rightarrow> [])"

text \<open>
  The winner written by \<^verbatim>\<open>save_scores\<close> and the winner shown by
  \<^verbatim>\<open>show_game_over_screen\<close>, and the side that each of these names stands for.
\<close>

definition save_scores_winner :: "game \<Rightarrow> string" where
  "save_scores_winner g = (if game_over (human_player g) then ''AI'' else ''Human'')"

definition game_over_screen_winner :: "game \<Rightarrow> string" where
  "game_over_screen_winner g = (if game_over (ai_player g) then ''Human Player'' else ''AI'')"

datatype side = Human_side | AI_side

definition side_of :: "string \<Rightarrow> side option" where
  "side_of name =
     (if name = ''AI'' then Some AI_side
      else if name = ''Human'' \<or> name = ''Human Player'' then Some Human_side
      else None)"

section \<open>Properties used to state the results\<close>

text \<open>
  A board is a grid of \<^verbatim>\<open>GRID_ROWS\<close> rows of \<^verbatim>\<open>GRID_COLUMNS\<close> cells.  A cell
  position is free for a piece when it lies between the side walls and above the floor
  and, unless it is above the top row, the grid is empty there.
\<close>

definition board :: "grid \<Rightarrow> bool" where
  "board g \<longleftrightarrow> length g = GRID_ROWS \<and> (\<forall>row \<in> set g. length row = GRID_COLUMNS)"

definition cell_free :: "grid \<Rightarrow> int \<Rightarrow> int \<Rightarrow> bool" where
  "cell_free g new_x new_y \<longleftrightarrow>
     0 \<le> new_x \<and> new_x < int GRID_COLUMNS \<and> new_y < int GRID_ROWS
     \<and> (0 \<le> new_y \<longrightarrow> g ! nat new_y ! nat new_x = BLACK)"

text \<open>
  The piece fits at an offset when each of its occupied cells, shifted, is free.
\<close>

definition fits :: "grid \<Rightarrow> piece \<Rightarrow> int \<Rightarrow> int \<Rightarrow> bool" where
  "fits g p dx dy \<longleftrightarrow>
     (\<forall>cy < length (shape p). \<forall>cx < length (shape p ! cy). shape p ! cy ! cx \<noteq> 0 \<longrightarrow>
        cell_free g (x p + int cx + dx) (y p + int cy + dy))"

text \<open>
  A proper shape is a rectangular matrix with at least one row and one occupied cell.
\<close>

definition proper_shape :: "shape \<Rightarrow> bool" where
  "proper_shape s \<longleftrightarrow>
     s \<noteq> [] \<and> (\<exists>c. \<forall>row \<in> set s. length row = c) \<and> occupied_cells s \<noteq> []"

text \<open>
  The candidates of the search, in the order in which they are tried, the candidate
  piece of a rotation count and an offset, and its resting place after a hard drop: the
  first row from which one more step down does not fit.
\<close>

definition search_order :: "(nat \<times> int) list" where
  "search_order = concat (map (\<lambda>r. map (\<lambda>dx. (r, dx)) [- 5..5]) [0..<4])"

definition candidate :: "piece \<Rightarrow> nat \<times> int \<Rightarrow> piece" where
  "candidate cur c = ((rotate ^^ fst c) cur)\<lparr> x := x cur + snd c \<rparr>"

definition resting :: "grid \<Rightarrow> piece \<Rightarrow> piece" where
  "resting g p = p\<lparr> y := y p + int (LEAST k. \<not> fits g (p\<lparr> y := y p + int k \<rparr>) 0 1) \<rparr>"

definition accepted :: "grid \<Rightarrow> piece \<Rightarrow> nat \<times> int \<Rightarrow> bool" where
  "accepted g cur c \<longleftrightarrow> fits g (resting g (candidate cur c)) 0 0"

text \<open>
  The grid with a piece written in, and the three measures of a grid: the aggregate
  height (the number of rows minus the index of the topmost row that is not empty, 0
  for an empty grid), the holes (the empty cells of a column below its first cell that
  is not empty, summed over the columns) and the bumpiness (the differences between the
  heights of neighbouring columns, summed).
\<close>

definition covers :: "piece \<Rightarrow> nat \<Rightarrow> nat \<Rightarrow> bool" where
  "covers q cx cy \<longleftrightarrow>
     (\<exists>(i, j) \<in> set (occupied_cells (shape q)). x q + int i = int cx \<and> y q + int j = int cy)"

definition with_piece :: "grid \<Rightarrow> piece \<Rightarrow> grid" where
  "with_piece g q =
     map (\<lambda>cy. map (\<lambda>cx. if covers q cx cy then color q else g ! cy ! cx) [0..<length (g ! cy)])
       [0..<length g]"

definition empty_cell :: "color \<Rightarrow> bool" where
  "empty_cell c \<longleftrightarrow> c = BLACK"

definition column :: "grid \<Rightarrow> nat \<Rightarrow> color list" where
  "column g cx = map (\<lambda>row. row ! cx) g"

definition aggregate_height :: "grid \<Rightarrow> int" where
  "aggregate_height g =
     (if list_all (list_all empty_cell) g then 0
      else int GRID_ROWS - int (length (takeWhile (list_all empty_cell) g)))"

definition column_height :: "grid \<Rightarrow> nat \<Rightarrow> int" where
  "column_height g cx =
     (if list_all empty_cell (column g cx) then 0
      else int GRID_ROWS - int (length (takeWhile empty_cell (column g cx))))"

definition hole_count :: "grid \<Rightarrow> int" where
  "hole_count g =
     (\<Sum>cx\<leftarrow>[0..<GRID_COLUMNS]. int (length (filter empty_cell (dropWhile empty_cell (column g cx)))))"

definition bumpiness :: "grid \<Rightarrow> int" where
  "bumpiness g = (\<Sum>cx\<leftarrow>[0..<GRID_COLUMNS - 1]. \<bar>column_height g cx - column_height g (Suc cx)\<bar>)"

definition candidate_score :: "grid \<Rightarrow> piece \<Rightarrow> nat \<times> int \<Rightarrow> int" where
  "candidate_score g cur c =
     (let g' = with_piece g (resting g (candidate cur c))
      in aggregate_height g' * 2 + hole_count g' * 3 + bumpiness g')"

text \<open>
  The effect of one candidate on the best score and the best move kept by the search,
  and what the search leaves alone: the rows that were in the store when it started,
  with a rotation count below 4.
\<close>

definition update_best :: "grid \<Rightarrow> piece \<Rightarrow> nat \<times> int \<Rightarrow> int option \<times> nat \<times> int \<Rightarrow> int option \<times> nat \<times> int" where
  "update_best g cur c best =
     (if accepted g cur c \<and> improves (candidate_score g cur c) (fst best)
      then (Some (candidate_score g cur c), fst c, x cur + snd c)
      else best)"

definition untouched :: "store \<Rightarrow> store \<times> int option \<times> nat \<times> int \<Rightarrow> bool" where
  "untouched h0 st \<longleftrightarrow> take (length h0) (fst st) = h0 \<and> fst (snd (snd st)) < 4"

text \<open>
  A player whose I-piece lies flat in the bottom row, next to six cells already locked
  there.
\<close>

definition example_player :: player where
  "example_player =
     \<lparr> grid = replicate 19 (replicate 10 BLACK) @ [replicate 6 (255, 215, 0) @ replicate 4 BLACK],
       current_piece = (Tetromino 0)\<lparr> x := 6, y := 19 \<rparr>,
       game_over = False,
       score = 0,
       survival_time = 0 \<rparr>"

text \<open>A player whose board has no empty cell.\<close>

definition full_player :: player where
  "full_player =
     \<lparr> grid = replicate 20 (replicate 10 (255, 215, 0)),
       current_piece = Tetromino 0,
       game_over = False,
       score = 0,
       survival_time = 0 \<rparr>"

text \<open>
  The state that a step of the loop leaves, and the link between the flags: the session
  is over if a side is.
\<close>

fun state_of :: "'a flow \<Rightarrow> 'a" where
  "state_of (Continue g) = g"
| "state_of (Returned g) = g"

definition settled :: "game \<Rightarrow> bool" where
  "settled g \<longleftrightarrow> (game_over (human_player g) \<or> game_over (ai_player g) \<longrightarrow> session_over g)"

text \<open>
  A game in which both boards are filled up to the second row except for the first
  column and the two cells where the square piece of each player sits, the inputs of
  an iteration in which gravity is due, and the game after that iteration.
\<close>

definition gold :: color where
  "gold = (255, 215, 0)"

definition top_row :: "color list" where
  "top_row = [BLACK, gold, gold, gold, BLACK, BLACK, gold, gold, gold, gold]"

definition stack_row :: "color list" where
  "stack_row = [BLACK, gold, gold, gold, gold, gold, gold, gold, gold, gold]"

definition square :: piece where
  "square = Tetromino 1"

definition crowded_player :: player where
  "crowded_player =
     \<lparr> grid = replicate 2 top_row @ replicate 18 stack_row,
       current_piece = Tetromino 1,
       game_over = False,
       score = 0,
       survival_time = 0 \<rparr>"

definition crowded_game :: game where
  "crowded_game =
     \<lparr> human_player = crowded_player, ai_player = crowded_player,
       session_over = False, paused = False \<rparr>"

definition last_input :: tick_input where
  "last_input = \<lparr> events = [], fall_due = True, elapsed = 1000, human_next = 2, ai_next = 2 \<rparr>"

definition lost_player :: player where
  "lost_player =
     \<lparr> grid = replicate 20 stack_row,
       current_piece = Tetromino 2,
       game_over = True,
       score = 0,
       survival_time = 1000 \<rparr>"

definition both_lost :: game where
  "both_lost =
     \<lparr> human_player = lost_player, ai_player = lost_player,
       session_over = True, paused = False \<rparr>"

section \<open>Rotation\<close>

lemma min_len_rect:
  "rows \<noteq> [] \<Longrightarrow> \<forall>row \<in> set rows. length row = c \<Longrightarrow> min_len rows = c"
  by (induction rows rule: min_len.induct) auto

lemma length_zip_star_rect:
  "rows \<noteq> [] \<Longrightarrow> \<forall>row \<in> set rows. length row = c \<Longrightarrow> length (zip_star rows) = c"
  by (simp add: zip_star_def min_len_rect)

lemma nth_zip_star_rect:
  assumes "rows \<noteq> []" and "\<forall>row \<in> set rows. length row = c" and "i < c"
  shows "zip_star rows ! i = map (\<lambda>row. row ! i) rows"
  using min_len_rect [OF assms(1,2)] assms(3) by (simp add: zip_star_def)

lemma zip_star_transpose:
  assumes ne: "rows \<noteq> []" and rect: "\<forall>row \<in> set rows. length row = c"
  shows "zip_star rows = transpose rows"
proof (rule nth_equalityI)
  have "foldr (\<lambda>xs. max (length xs)) rows 0 = (if rows = [] then 0 else c)"
    using rect by (induction rows) auto
  then have fold_max: "foldr (\<lambda>xs. max (length xs)) rows 0 = c"
    using ne by simp
  note zlen = length_zip_star_rect [OF ne rect]
  show len: "length (zip_star rows) = length (transpose rows)"
    by (simp add: zlen length_transpose fold_max)
  fix i assume "i < length (zip_star rows)"
  then have i: "i < c"
    by (simp add: zlen)
  have keep: "filter (\<lambda>ys. i < length ys) rows = rows"
    using rect i by (simp add: filter_id_conv)
  have "transpose rows ! i = map (\<lambda>xs. xs ! i) rows"
    using i len by (simp add: nth_transpose keep zlen)
  then show "zip_star rows ! i = transpose rows ! i"
    using nth_zip_star_rect [OF ne rect i] by simp
qed

text \<open>
  Claim C6.  For a shape with \<open>r \<ge> 1\<close> rows of \<open>c\<close> cells each, \<^verbatim>\<open>rotate()\<close> replaces the
  shape by the transpose of the shape with its row order reversed.  The new shape has
  \<open>c\<close> rows of \<open>r\<close> cells, its cell at row \<open>i\<close>, column \<open>j\<close> is the old cell at row
  \<open>r - 1 - j\<close>, column \<open>i\<close> (a quarter turn clockwise), and the position and the colour of
  the piece stay as they were.
\<close>

theorem rotate_clockwise:
  assumes rows: "length (shape p) = r" and pos: "0 < r"
    and cols: "\<forall>row \<in> set (shape p). length row = c"
  shows "shape (rotate p) = transpose (rev (shape p))
       \<and> length (shape (rotate p)) = c
       \<and> (\<forall>row \<in> set (shape (rotate p)). length row = r)
       \<and> (\<forall>i < c. \<forall>j < r. shape (rotate p) ! i ! j = shape p ! (r - 1 - j) ! i)
       \<and> x (rotate p) = x p \<and> y (rotate p) = y p \<and> color (rotate p) = color p"
proof -
  let ?s = "rev (shape p)"
  have ne: "?s \<noteq> []"
    using rows pos by auto
  have rect: "\<forall>row \<in> set ?s. length row = c"
    using cols by simp
  have sh: "shape (rotate p) = zip_star ?s"
    by (simp add: rotate_def)
  have len: "length (zip_star ?s) = c"
    by (rule length_zip_star_rect [OF ne rect])
  have row: "zip_star ?s ! i = map (\<lambda>row. row ! i) ?s" if "i < c" for i
    by (rule nth_zip_star_rect [OF ne rect that])
  have widths: "\<forall>row \<in> set (zip_star ?s). length row = r"
  proof
    fix row assume "row \<in> set (zip_star ?s)"
    then obtain i where "i < c" and "row = zip_star ?s ! i"
      using len by (auto simp: in_set_conv_nth)
    then show "length row = r"
      using row rows by simp
  qed
  have cells: "\<forall>i < c. \<forall>j < r. zip_star ?s ! i ! j = shape p ! (r - 1 - j) ! i"
  proof (intro allI impI)
    fix i j assume i: "i < c" and j: "j < r"
    have "zip_star ?s ! i ! j = ?s ! j ! i"
      using row [OF i] j rows by simp
    also have "?s ! j = shape p ! (r - 1 - j)"
      using j rows by (simp add: rev_nth)
    finally show "zip_star ?s ! i ! j = shape p ! (r - 1 - j) ! i" .
  qed
  have "zip_star ?s = transpose ?s"
    by (rule zip_star_transpose [OF ne rect])
  with sh len widths cells show ?thesis
    by (simp add: rotate_def)
qed

theorem rotate_clockwise_witness:
  "shape (rotate (Tetromino 2)) = [[0, 1], [1, 1], [0, 1]]
   \<and> shape (rotate (Tetromino 2)) ! 1 ! 0 = shape (Tetromino 2) ! (2 - 1 - 0) ! 1
   \<and> x (rotate (Tetromino 2)) = 4 \<and> y (rotate (Tetromino 2)) = 0"
proof -
  have s: "shape (Tetromino 2) = [[1, 1, 1], [0, 1, 0]]"
    by (simp add: Tetromino_def SHAPES_def)
  have xy: "x (Tetromino 2) = 4" "y (Tetromino 2) = 0"
    by (simp_all add: Tetromino_def SHAPES_def GAME_WIDTH_def GRID_COLUMNS_def BLOCK_SIZE_def)
  have "length (shape (Tetromino 2)) = 2" and "(0::nat) < 2"
    and "\<forall>row \<in> set (shape (Tetromino 2)). length row = 3"
    by (simp_all add: s)
  from rotate_clockwise [OF this] show ?thesis
    by (simp add: s xy)
qed

text \<open>
  Claim C7.  Four successive calls of \<^verbatim>\<open>rotate()\<close> on a piece carrying any of the seven
  shapes of \<^verbatim>\<open>SHAPES\<close> give back that shape, cell for cell.
\<close>

theorem rotate_four_times:
  "map (\<lambda>k. shape (rotate (rotate (rotate (rotate (Tetromino k)))))) [0..<7] = SHAPES"
  by (simp add: upt_rec [of _ 7] numeral_eq_Suc nth_Cons' rotate_def zip_star_def
      Tetromino_def SHAPES_def)


section \<open>Line clearing and scoring\<close>

lemma clear_loop_inv:
  "drop i g = rows \<Longrightarrow>
   clear_loop i rows (g, n) =
     Inr (rev (map (\<lambda>row. replicate (length row) BLACK) (filter is_full rows))
           @ take i g @ filter (\<lambda>row. \<not> is_full row) rows,
          n + length (filter is_full rows))"
proof (induction rows arbitrary: i g n)
  case Nil
  then show ?case by simp
next
  case (Cons row rows)
  from Cons.prems have i: "i < length g"
    by (metis drop_all list.distinct(1) not_le)
  from Cons.prems have row: "g ! i = row" and rest: "drop (Suc i) g = rows"
    using i by (simp_all add: Cons_nth_drop_Suc [symmetric])
  show ?case
  proof (cases "is_full row")
    case True
    let ?g' = "replicate (length row) BLACK # take i g @ drop (Suc i) g"
    have d: "drop (Suc i) ?g' = rows"
      using i rest by simp
    have t: "take (Suc i) ?g' = replicate (length row) BLACK # take i g"
      using i by simp
    show ?thesis
      using True i Cons.IH [OF d, of "n + 1"] by (simp add: del_row_def t rest)
  next
    case False
    have t: "take (Suc i) g = take i g @ [row]"
      using i row by (simp add: take_Suc_conv_app_nth)
    show ?thesis
      using False Cons.IH [OF rest, of n] by (simp add: t)
  qed
qed

lemma clear_lines_eq:
  "clear_lines g =
     Inr (rev (map (\<lambda>row. replicate (length row) BLACK) (filter is_full g))
           @ filter (\<lambda>row. \<not> is_full row) g,
          length (filter is_full g))"
  using clear_loop_inv [of 0 g g 0] by (simp add: clear_lines_def)

text \<open>
  Claim C1.  The line-clear loop of \<^verbatim>\<open>lock_piece\<close>, started on any grid \<open>g\<close>, never
  raises, although it deletes from the live grid by the index of the snapshot.  It ends
  with the rows of \<open>g\<close> that were not full, in their order, below one empty row for
  every full row of \<open>g\<close> (the empty row is as wide as the row it replaces), and its
  counter is the number of full rows of \<open>g\<close>.  So when \<^verbatim>\<open>lock_piece\<close> returns, the grid
  of the player is that grid, for \<open>g\<close> the grid with the piece written in.
\<close>

theorem clear_lines_full_rows:
  "clear_lines g =
     Inr (rev (map (\<lambda>row. replicate (length row) BLACK) (filter is_full g))
           @ filter (\<lambda>row. \<not> is_full row) g,
          length (filter is_full g))
   \<and> (write_piece (current_piece pl) (grid pl) = Inr g \<and> lock_piece pl = Inr pl' \<longrightarrow>
        grid pl' = rev (map (\<lambda>row. replicate (length row) BLACK) (filter is_full g))
                     @ filter (\<lambda>row. \<not> is_full row) g)"
proof (intro conjI impI)
  show "clear_lines g =
     Inr (rev (map (\<lambda>row. replicate (length row) BLACK) (filter is_full g))
           @ filter (\<lambda>row. \<not> is_full row) g,
          length (filter is_full g))"
    by (rule clear_lines_eq)
next
  assume "write_piece (current_piece pl) (grid pl) = Inr g \<and> lock_piece pl = Inr pl'"
  then show "grid pl' = rev (map (\<lambda>row. replicate (length row) BLACK) (filter is_full g))
                     @ filter (\<lambda>row. \<not> is_full row) g"
    by (auto simp: lock_piece_def clear_lines_eq split: sum.splits if_splits)
qed

text \<open>
  Claim C5.  When the piece can be written and the written grid has \<open>n \<le> 4\<close> full rows,
  \<^verbatim>\<open>lock_piece\<close> returns and adds to the score 0, 40, 100, 300 or 1200 for \<open>n\<close> = 0, 1, 2,
  3 or 4.
\<close>

theorem lock_piece_score:
  assumes w: "write_piece (current_piece pl) (grid pl) = Inr g1"
    and n: "length (filter is_full g1) = n" and le: "n \<le> 4"
  shows "\<exists>pl'. lock_piece pl = Inr pl' \<and> score pl' - score pl = [0, 40, 100, 300, 1200] ! n"
proof -
  from le consider "n = 0" | "n = 1" | "n = 2" | "n = 3" | "n = 4"
    by linarith
  then show ?thesis
    by cases (simp_all add: lock_piece_def w clear_lines_eq n getitem_def py_index_def)
qed

lemma example_player_written: "write_piece (current_piece example_player) (grid example_player) =
    Inr (replicate 19 (replicate 10 BLACK) @ [replicate 6 (255, 215, 0) @ replicate 4 (0, 255, 255)])"
  by code_simp

lemma example_player_full_rows: "length (filter is_full (replicate 19 (replicate 10 BLACK) @ [replicate 6 (255, 215, 0) @ replicate 4 (0, 255, 255)])) = 1"
  by code_simp

text \<open>Witness of C5: the I-piece of the example player completes the bottom row.\<close>

theorem lock_piece_score_witness:
  "\<exists>pl'. lock_piece example_player = Inr pl' \<and> score pl' - score example_player = 40"
  using lock_piece_score [OF example_player_written example_player_full_rows] by simp

lemma example_player_locked:
  "lock_piece example_player =
     Inr (example_player\<lparr> grid := replicate 20 (replicate 10 BLACK), score := 40 \<rparr>)"
  by code_simp

text \<open>Witness of C1: the same lock clears the bottom row.\<close>

theorem clear_lines_full_rows_witness:
  "lock_piece example_player =
     Inr (example_player\<lparr> grid := replicate 20 (replicate 10 BLACK), score := 40 \<rparr>)
   \<and> grid (example_player\<lparr> grid := replicate 20 (replicate 10 BLACK), score := 40 \<rparr>)
       = rev (map (\<lambda>row. replicate (length row) BLACK)
               (filter is_full (replicate 19 (replicate 10 BLACK)
                  @ [replicate 6 (255, 215, 0) @ replicate 4 (0, 255, 255)])))
         @ filter (\<lambda>row. \<not> is_full row) (replicate 19 (replicate 10 BLACK)
                  @ [replicate 6 (255, 215, 0) @ replicate 4 (0, 255, 255)])"
  using clear_lines_full_rows [of "replicate 19 (replicate 10 BLACK)
                  @ [replicate 6 (255, 215, 0) @ replicate 4 (0, 255, 255)]" example_player
           "example_player\<lparr> grid := replicate 20 (replicate 10 BLACK), score := 40 \<rparr>"]
    example_player_written example_player_locked
  by blast


section \<open>Validity of a move\<close>

lemma in_occupied_cells:
  "(cx, cy) \<in> set (occupied_cells s) \<longleftrightarrow>
     cy < length s \<and> cx < length (s ! cy) \<and> s ! cy ! cx \<noteq> 0"
proof
  assume "(cx, cy) \<in> set (occupied_cells s)"
  then show "cy < length s \<and> cx < length (s ! cy) \<and> s ! cy ! cx \<noteq> 0"
    by (auto simp: occupied_cells_def in_set_enumerate_eq)
next
  assume a: "cy < length s \<and> cx < length (s ! cy) \<and> s ! cy ! cx \<noteq> 0"
  then have row: "(cy, s ! cy) \<in> set (enumerate 0 s)"
    by (simp add: in_set_enumerate_eq)
  from a have cell: "(cx, s ! cy ! cx) \<in> set (enumerate 0 (s ! cy))"
    by (simp add: in_set_enumerate_eq)
  have "(cx, cy) \<in> set (map (\<lambda>(cx, cell). (cx, cy))
          (filter (\<lambda>(cx, cell). cell \<noteq> 0) (enumerate 0 (s ! cy))))"
    using cell a by force
  with row show "(cx, cy) \<in> set (occupied_cells s)"
    unfolding occupied_cells_def by force
qed

lemma check_cell_board:
  assumes "board g"
  shows "check_cell g new_x new_y = Inr (cell_free g new_x new_y)"
proof -
  from assms have len: "length g = GRID_ROWS" and w: "\<And>k. k < GRID_ROWS \<Longrightarrow> length (g ! k) = GRID_COLUMNS"
    by (auto simp: board_def)
  have g0: "getitem g 0 = Inr (g ! 0)"
    by (simp add: getitem_def py_index_def len GRID_ROWS_def)
  have w0: "length (g ! 0) = GRID_COLUMNS"
    by (rule w) (simp add: GRID_ROWS_def)
  show ?thesis
  proof (cases "0 \<le> new_x \<and> new_x < int GRID_COLUMNS \<and> new_y < int GRID_ROWS")
    case False
    then show ?thesis
      by (auto simp: check_cell_def cell_free_def g0 w0 len)
  next
    case inb: True
    show ?thesis
    proof (cases "0 \<le> new_y")
      case False
      with inb show ?thesis
        by (auto simp: check_cell_def cell_free_def g0 w0 len)
    next
      case True
      with inb have k: "nat new_y < GRID_ROWS" by linarith
      have gy: "getitem g new_y = Inr (g ! nat new_y)"
        using True inb by (simp add: getitem_def py_index_def len)
      have gx: "getitem (g ! nat new_y) new_x = Inr (g ! nat new_y ! nat new_x)"
        using inb w [OF k] by (simp add: getitem_def py_index_def)
      show ?thesis
        using True inb by (simp add: check_cell_def cell_free_def g0 w0 len gy gx)
    qed
  qed
qed

lemma check_cells_board:
  assumes "board g"
  shows "check_cells g p dx dy cs =
           Inr (\<forall>(cx, cy) \<in> set cs. cell_free g (x p + int cx + dx) (y p + int cy + dy))"
  by (induction cs) (auto simp: check_cell_board [OF assms])

text \<open>
  Claim C2.  On a grid of \<^verbatim>\<open>GRID_ROWS\<close> rows of \<^verbatim>\<open>GRID_COLUMNS\<close> cells,
  \<^verbatim>\<open>is_valid_move\<close> returns (it raises nothing), and it returns true exactly when every
  occupied cell of the piece, shifted by \<open>(dx, dy)\<close>, has its column in
  \<open>[0, GRID_COLUMNS)\<close>, its row below \<^verbatim>\<open>GRID_ROWS\<close>, and, when its row is not negative,
  an empty grid cell under it.
\<close>

theorem is_valid_move_iff:
  assumes "length g = GRID_ROWS" and "\<forall>row \<in> set g. length row = GRID_COLUMNS"
  shows "is_valid_move p dx dy g =
     Inr (\<forall>cy < length (shape p). \<forall>cx < length (shape p ! cy). shape p ! cy ! cx \<noteq> 0 \<longrightarrow>
            0 \<le> x p + int cx + dx \<and> x p + int cx + dx < int GRID_COLUMNS
          \<and> y p + int cy + dy < int GRID_ROWS
          \<and> (0 \<le> y p + int cy + dy \<longrightarrow>
               g ! nat (y p + int cy + dy) ! nat (x p + int cx + dx) = BLACK))"
proof -
  have b: "board g"
    using assms by (simp add: board_def)
  have "(\<forall>(cx, cy) \<in> set (occupied_cells (shape p)). cell_free g (x p + int cx + dx) (y p + int cy + dy))
      \<longleftrightarrow> (\<forall>cy < length (shape p). \<forall>cx < length (shape p ! cy). shape p ! cy ! cx \<noteq> 0 \<longrightarrow>
            cell_free g (x p + int cx + dx) (y p + int cy + dy))"
    by (auto simp: in_occupied_cells)
  then show ?thesis
    by (simp add: is_valid_move_def check_cells_board [OF b] cell_free_def)
qed


theorem is_valid_move_iff_witness:
  "is_valid_move (Tetromino 0) 0 1 (grid (reset_player 0)) = Inr True
   \<and> is_valid_move (Tetromino 0) (- 4) 0 (grid (reset_player 0)) = Inr False"
proof -
  have g: "length (grid (reset_player 0)) = GRID_ROWS"
    "\<forall>row \<in> set (grid (reset_player 0)). length row = GRID_COLUMNS"
    by (simp_all add: reset_player_def)
  have s: "shape (Tetromino 0) = [[1, 1, 1, 1]]" "x (Tetromino 0) = 3" "y (Tetromino 0) = 0"
    by (simp_all add: Tetromino_def SHAPES_def GAME_WIDTH_def GRID_COLUMNS_def BLOCK_SIZE_def)
  have c: "\<And>k. k < 20 \<Longrightarrow> j < 10 \<Longrightarrow> grid (reset_player 0) ! k ! j = BLACK" for j
    by (simp add: reset_player_def GRID_ROWS_def GRID_COLUMNS_def)
  show ?thesis
    using is_valid_move_iff [OF g, of "Tetromino 0" 0 1] is_valid_move_iff [OF g, of "Tetromino 0" "- 4" 0]
    by (auto simp: s c GRID_ROWS_def GRID_COLUMNS_def less_Suc_eq nth_Cons' dest!: spec[of _ "0::nat"])
qed


section \<open>Rotated shapes and the simulated drop\<close>

lemma fits_cells:
  "fits g p dx dy \<longleftrightarrow>
     (\<forall>(cx, cy) \<in> set (occupied_cells (shape p)). cell_free g (x p + int cx + dx) (y p + int cy + dy))"
  by (auto simp: fits_def in_occupied_cells)

lemma is_valid_move_fits:
  "board g \<Longrightarrow> is_valid_move p dx dy g = Inr (fits g p dx dy)"
  by (simp add: is_valid_move_def check_cells_board fits_cells)

lemma proper_shape_rotate:
  assumes "proper_shape (shape p)"
  shows "proper_shape (shape (rotate p))"
proof -
  let ?s = "shape p" and ?r = "rev (shape p)"
  from assms obtain c where rect0: "\<forall>row \<in> set ?s. length row = c"
    unfolding proper_shape_def by blast
  then have rect: "\<forall>row \<in> set ?r. length row = c"
    by simp
  from assms have ne: "?r \<noteq> []"
    unfolding proper_shape_def by simp
  from assms have occ: "occupied_cells ?s \<noteq> []"
    unfolding proper_shape_def by blast
  from occ obtain cx cy where "(cx, cy) \<in> set (occupied_cells ?s)"
    by (cases "occupied_cells ?s") auto
  then have cy: "cy < length ?s" and cx': "cx < length (?s ! cy)" and cell: "?s ! cy ! cx \<noteq> 0"
    by (simp_all add: in_occupied_cells)
  from cy have "?s ! cy \<in> set ?r"
    by simp
  with rect have "length (?s ! cy) = c"
    by blast
  with cx' have cx: "cx < c"
    by simp
  let ?t = "zip_star ?r"
  have len: "length ?t = c"
    by (rule length_zip_star_rect [OF ne rect])
  have row: "?t ! i = map (\<lambda>row. row ! i) ?r" if "i < c" for i
    by (rule nth_zip_star_rect [OF ne rect that])
  have t_ne: "?t \<noteq> []"
    using len cx by auto
  have widths: "length row = length ?s" if "row \<in> set ?t" for row
  proof -
    from that obtain i where "i < c" and "row = ?t ! i"
      using len by (auto simp: in_set_conv_nth)
    then show ?thesis using row by simp
  qed
  let ?j = "length ?s - 1 - cy"
  have j: "?j < length ?s" using cy by simp
  have "?t ! cx ! ?j = ?r ! ?j ! cx"
    using row [OF cx] j by simp
  also have "?r ! ?j = ?s ! cy"
    using cy by (simp add: rev_nth)
  finally have "?t ! cx ! ?j \<noteq> 0"
    using cell by simp
  moreover have "cx < length ?t" using len cx by simp
  moreover have "?j < length (?t ! cx)"
    using widths [of "?t ! cx"] len cx j by simp
  ultimately have "(?j, cx) \<in> set (occupied_cells ?t)"
    by (simp add: in_occupied_cells)
  then have "occupied_cells ?t \<noteq> []" by auto
  moreover have "\<exists>c. \<forall>row \<in> set ?t. length row = c"
    using widths by blast
  ultimately show ?thesis
    using t_ne unfolding proper_shape_def rotate_def by simp
qed

lemma proper_shape_funpow:
  "proper_shape (shape p) \<Longrightarrow> proper_shape (shape ((rotate ^^ r) p))"
  by (induction r) (simp_all add: proper_shape_rotate)

lemma rotate_fields [simp]:
  "x (rotate p) = x p" "y (rotate p) = y p" "color (rotate p) = color p"
  by (simp_all add: rotate_def)

lemma funpow_rotate_fields [simp]:
  "x ((rotate ^^ r) p) = x p" "y ((rotate ^^ r) p) = y p" "color ((rotate ^^ r) p) = color p"
  by (induction r) simp_all

lemma fits_below_floor:
  assumes "fits g p 0 1" and "(cx, cy) \<in> set (occupied_cells (shape p))"
  shows "y p + int cy + 1 < int GRID_ROWS"
  using assms by (auto simp: fits_cells cell_free_def)

lemma drop_piece_steps:
  assumes b: "board g" and c: "(cx, cy) \<in> set (occupied_cells (shape p))"
  shows "\<exists>k. drop_piece g p = Some (Inr (p\<lparr> y := y p + int k \<rparr>))
           \<and> (\<forall>j < k. fits g (p\<lparr> y := y p + int j \<rparr>) 0 1)
           \<and> \<not> fits g (p\<lparr> y := y p + int k \<rparr>) 0 1"
  using c
proof (induction "nat (int GRID_ROWS - (y p + int cy))" arbitrary: p rule: less_induct)
  case less
  show ?case
  proof (cases "fits g p 0 1")
    case False
    then have "drop_piece g p = Some (Inr p)"
      by (subst drop_piece.simps) (simp add: is_valid_move_fits [OF b])
    with False show ?thesis
      by (intro exI [of _ 0]) simp
  next
    case True
    let ?p' = "p\<lparr> y := y p + 1 \<rparr>"
    from fits_below_floor [OF True less.prems]
    have "nat (int GRID_ROWS - (y ?p' + int cy)) < nat (int GRID_ROWS - (y p + int cy))"
      by simp
    moreover have "(cx, cy) \<in> set (occupied_cells (shape ?p'))"
      using less.prems by simp
    ultimately obtain k where k: "drop_piece g ?p' = Some (Inr (?p'\<lparr> y := y ?p' + int k \<rparr>))"
      "\<forall>j < k. fits g (?p'\<lparr> y := y ?p' + int j \<rparr>) 0 1"
      "\<not> fits g (?p'\<lparr> y := y ?p' + int k \<rparr>) 0 1"
      using less.hyps [of ?p'] by blast
    have sh: "?p'\<lparr> y := y ?p' + int j \<rparr> = p\<lparr> y := y p + int (Suc j) \<rparr>" for j
      by simp
    have "drop_piece g p = drop_piece g ?p'"
      using True by (subst drop_piece.simps) (simp add: is_valid_move_fits [OF b])
    then have 1: "drop_piece g p = Some (Inr (p\<lparr> y := y p + int (Suc k) \<rparr>))"
      using k(1) unfolding sh by simp
    have 2: "\<forall>j < Suc k. fits g (p\<lparr> y := y p + int j \<rparr>) 0 1"
    proof (intro allI impI)
      fix j assume "j < Suc k"
      show "fits g (p\<lparr> y := y p + int j \<rparr>) 0 1"
      proof (cases j)
        case 0
        with True show ?thesis by simp
      next
        case (Suc j')
        with \<open>j < Suc k\<close> k(2) have "fits g (?p'\<lparr> y := y ?p' + int j' \<rparr>) 0 1" by simp
        then show ?thesis unfolding sh Suc .
      qed
    qed
    have 3: "\<not> fits g (p\<lparr> y := y p + int (Suc k) \<rparr>) 0 1"
      using k(3) unfolding sh .
    from 1 2 3 show ?thesis by blast
  qed
qed

lemma drop_piece_resting:
  assumes b: "board g" and c: "occupied_cells (shape p) \<noteq> []"
  shows "drop_piece g p = Some (Inr (resting g p))"
proof -
  from c obtain cx cy where "(cx, cy) \<in> set (occupied_cells (shape p))"
    by (cases "occupied_cells (shape p)") auto
  from drop_piece_steps [OF b this] obtain k where
    k: "drop_piece g p = Some (Inr (p\<lparr> y := y p + int k \<rparr>))"
      "\<forall>j < k. fits g (p\<lparr> y := y p + int j \<rparr>) 0 1"
      "\<not> fits g (p\<lparr> y := y p + int k \<rparr>) 0 1"
    by blast
  have "(LEAST k. \<not> fits g (p\<lparr> y := y p + int k \<rparr>) 0 1) = k"
  proof (rule Least_equality)
    show "\<not> fits g (p\<lparr> y := y p + int k \<rparr>) 0 1" by (rule k(3))
  next
    fix j assume "\<not> fits g (p\<lparr> y := y p + int j \<rparr>) 0 1"
    with k(2) show "k \<le> j" by (meson not_le)
  qed
  then show ?thesis
    using k(1) by (simp add: resting_def)
qed

section \<open>The store of rows\<close>

lemma rows_of_copy_rows:
  assumes "\<forall>a \<in> set refs. a < length h"
  shows "rows_of (fst (copy_rows h refs)) (snd (copy_rows h refs)) = rows_of h refs"
proof (rule nth_equalityI)
  show "length (rows_of (fst (copy_rows h refs)) (snd (copy_rows h refs))) = length (rows_of h refs)"
    by (simp add: rows_of_def copy_rows_def)
  fix i assume "i < length (rows_of (fst (copy_rows h refs)) (snd (copy_rows h refs)))"
  then have i: "i < length refs"
    by (simp add: rows_of_def copy_rows_def)
  then show "rows_of (fst (copy_rows h refs)) (snd (copy_rows h refs)) ! i = rows_of h refs ! i"
    by (simp add: rows_of_def copy_rows_def nth_append)
qed

lemma copy_rows_store:
  "take (length h) (fst (copy_rows h refs)) = h"
  "length (fst (copy_rows h refs)) = length h + length refs"
  by (simp_all add: copy_rows_def)

lemma copy_rows_refs:
  "snd (copy_rows h refs) = [length h..<length h + length refs]"
  by (simp add: copy_rows_def)

lemma store_cell_frame:
  assumes "store_cell h refs gx gy c = Inr h'"
  shows "length h' = length h \<and> (\<forall>a. a \<notin> set refs \<longrightarrow> h' ! a = h ! a)"
proof (cases "0 \<le> gy \<and> gy < int (length refs)")
  case False
  with assms show ?thesis by (auto simp: store_cell_def)
next
  case True
  then have k: "nat gy < length refs" by linarith
  from assms True obtain row where h': "h' = h[refs ! nat gy := row]"
    by (auto simp: store_cell_def split: sum.splits)
  have "h' ! a = h ! a" if "a \<notin> set refs" for a
  proof -
    from that k have "a \<noteq> refs ! nat gy" by (metis nth_mem)
    then show ?thesis by (simp add: h')
  qed
  then show ?thesis by (simp add: h')
qed

lemma store_cells_frame:
  "store_cells p cs refs h = Inr h' \<Longrightarrow>
     length h' = length h \<and> (\<forall>a. a \<notin> set refs \<longrightarrow> h' ! a = h ! a)"
proof (induction cs arbitrary: h)
  case Nil
  then show ?case by simp
next
  case (Cons c cs)
  obtain cx cy where c: "c = (cx, cy)" by (cases c)
  from Cons.prems obtain h1 where
    1: "store_cell h refs (x p + int cx) (y p + int cy) (color p) = Inr h1"
    and 2: "store_cells p cs refs h1 = Inr h'"
    by (auto simp: c split: sum.splits)
  from store_cell_frame [OF 1] Cons.IH [OF 2] show ?case by simp
qed

lemma store_cells_prefix:
  assumes "store_cells p cs refs h = Inr h'" and "\<forall>a \<in> set refs. n \<le> a"
  shows "take n h' = take n h"
proof (rule nth_equalityI)
  from store_cells_frame [OF assms(1)]
  have len: "length h' = length h" and same: "\<And>a. a \<notin> set refs \<Longrightarrow> h' ! a = h ! a"
    by simp_all
  show "length (take n h') = length (take n h)"
    by (simp add: len)
  fix i assume "i < length (take n h')"
  then have "i < n" by simp
  with assms(2) have "i \<notin> set refs" by auto
  from same [OF this] \<open>i < n\<close> show "take n h' ! i = take n h ! i" by simp
qed

lemma rows_of_update:
  assumes "distinct refs" and "k < length refs"
  shows "rows_of (h[refs ! k := row]) refs =
           (if refs ! k < length h then (rows_of h refs)[k := row] else rows_of h refs)"
proof (rule nth_equalityI)
  show "length (rows_of (h[refs ! k := row]) refs) =
        length (if refs ! k < length h then (rows_of h refs)[k := row] else rows_of h refs)"
    by (simp add: rows_of_def)
  fix i assume "i < length (rows_of (h[refs ! k := row]) refs)"
  then have i: "i < length refs" by (simp add: rows_of_def)
  show "rows_of (h[refs ! k := row]) refs ! i =
        (if refs ! k < length h then (rows_of h refs)[k := row] else rows_of h refs) ! i"
  proof (cases "i = k")
    case True
    then show ?thesis using i by (simp add: rows_of_def list_update_beyond)
  next
    case False
    then have "refs ! i \<noteq> refs ! k"
      using assms i by (simp add: nth_eq_iff_index_eq)
    then show ?thesis using i False by (simp add: rows_of_def)
  qed
qed

lemma store_cell_write_cell:
  assumes d: "distinct refs" and v: "\<forall>a \<in> set refs. a < length h"
    and w: "write_cell (rows_of h refs) gx gy c = Inr g'"
  shows "\<exists>h'. store_cell h refs gx gy c = Inr h' \<and> rows_of h' refs = g'"
proof (cases "0 \<le> gy \<and> gy < int (length refs)")
  case False
  with w show ?thesis by (auto simp: store_cell_def write_cell_def rows_of_def)
next
  case True
  then have k: "nat gy < length refs" by linarith
  then have a: "refs ! nat gy < length h" using v by simp
  have r: "rows_of h refs ! nat gy = h ! (refs ! nat gy)"
    using k by (simp add: rows_of_def)
  have len: "length (rows_of h refs) = length refs"
    by (simp add: rows_of_def)
  from w True obtain row where row: "setitem (h ! (refs ! nat gy)) gx c = Inr row"
    and g': "g' = (rows_of h refs)[nat gy := row]"
    by (auto simp: write_cell_def len r split: sum.splits)
  have "store_cell h refs gx gy c = Inr (h[refs ! nat gy := row])"
    using True row by (simp add: store_cell_def)
  moreover have "rows_of (h[refs ! nat gy := row]) refs = g'"
    using rows_of_update [OF d k] a g' by simp
  ultimately show ?thesis by blast
qed

lemma store_cells_write_cells:
  assumes d: "distinct refs"
  shows "\<forall>a \<in> set refs. a < length h \<Longrightarrow> write_cells p cs (rows_of h refs) = Inr g' \<Longrightarrow>
         \<exists>h'. store_cells p cs refs h = Inr h' \<and> rows_of h' refs = g'"
proof (induction cs arbitrary: h)
  case Nil
  then show ?case by simp
next
  case (Cons c cs)
  obtain cx cy where c: "c = (cx, cy)" by (cases c)
  from Cons.prems(2) obtain g1 where
    1: "write_cell (rows_of h refs) (x p + int cx) (y p + int cy) (color p) = Inr g1"
    and 2: "write_cells p cs g1 = Inr g'"
    by (auto simp: c split: sum.splits)
  from store_cell_write_cell [OF d Cons.prems(1) 1] obtain h1 where
    h1: "store_cell h refs (x p + int cx) (y p + int cy) (color p) = Inr h1"
    and r1: "rows_of h1 refs = g1"
    by blast
  from store_cell_frame [OF h1] Cons.prems(1) have v1: "\<forall>a \<in> set refs. a < length h1"
    by simp
  from Cons.IH [OF v1] 2 r1 obtain h' where "store_cells p cs refs h1 = Inr h'" "rows_of h' refs = g'"
    by blast
  with h1 show ?case by (simp add: c)
qed

section \<open>The test grid and its evaluation\<close>

lemma board_nth:
  "board g \<Longrightarrow> r < GRID_ROWS \<Longrightarrow> length (g ! r) = GRID_COLUMNS"
  by (simp add: board_def)

lemma write_cell_board:
  assumes b: "board g" and x0: "0 \<le> gx" and x1: "gx < int GRID_COLUMNS"
  shows "\<exists>g'. write_cell g gx gy c = Inr g' \<and> board g'
           \<and> (\<forall>r < GRID_ROWS. \<forall>k < GRID_COLUMNS.
                 g' ! r ! k = (if int r = gy \<and> int k = gx then c else g ! r ! k))"
proof (cases "0 \<le> gy \<and> gy < int (length g)")
  case False
  then have "write_cell g gx gy c = Inr g"
    by (auto simp: write_cell_def)
  moreover have "\<not> (int r = gy)" if "r < GRID_ROWS" for r
    using False b that by (auto simp: board_def)
  ultimately show ?thesis using b by auto
next
  case True
  from b have len: "length g = GRID_ROWS" by (simp add: board_def)
  from True have ky: "nat gy < GRID_ROWS" using len by linarith
  have w: "length (g ! nat gy) = GRID_COLUMNS"
    by (rule board_nth [OF b ky])
  have kx: "nat gx < GRID_COLUMNS" using x0 x1 by linarith
  let ?row = "(g ! nat gy)[nat gx := c]"
  have s: "setitem (g ! nat gy) gx c = Inr ?row"
    using x0 x1 by (simp add: setitem_def py_index_def w)
  have eq: "write_cell g gx gy c = Inr (g[nat gy := ?row])"
    using True by (simp add: write_cell_def s)
  have bd: "board (g[nat gy := ?row])"
    using b w by (auto simp: board_def dest!: set_update_subset_insert [THEN subsetD])
  have cells: "(g[nat gy := ?row]) ! r ! k = (if int r = gy \<and> int k = gx then c else g ! r ! k)"
    if "r < GRID_ROWS" "k < GRID_COLUMNS" for r k
  proof (cases "r = nat gy")
    case False
    with True show ?thesis by auto
  next
    case r: True
    show ?thesis
    proof (cases "k = nat gx")
      case True
      with r ky kx w len x0 \<open>0 \<le> gy \<and> gy < int (length g)\<close> show ?thesis by simp
    next
      case False
      with r ky w len x0 \<open>0 \<le> gy \<and> gy < int (length g)\<close> show ?thesis by auto
    qed
  qed
  from eq bd cells show ?thesis by blast
qed

lemma write_cells_board:
  "board g \<Longrightarrow>
   \<forall>(cx, cy) \<in> set cs. 0 \<le> x p + int cx \<and> x p + int cx < int GRID_COLUMNS \<Longrightarrow>
   \<exists>g'. write_cells p cs g = Inr g' \<and> board g'
      \<and> (\<forall>r < GRID_ROWS. \<forall>k < GRID_COLUMNS.
            g' ! r ! k = (if \<exists>(i, j) \<in> set cs. x p + int i = int k \<and> y p + int j = int r
                          then color p else g ! r ! k))"
proof (induction cs arbitrary: g)
  case Nil
  then show ?case by simp
next
  case (Cons c cs)
  obtain cx cy where c: "c = (cx, cy)" by (cases c)
  from Cons.prems(2) have xr: "0 \<le> x p + int cx" "x p + int cx < int GRID_COLUMNS"
    and rest: "\<forall>(cx, cy) \<in> set cs. 0 \<le> x p + int cx \<and> x p + int cx < int GRID_COLUMNS"
    by (auto simp: c)
  from write_cell_board [OF Cons.prems(1) xr, of "y p + int cy" "color p"] obtain g1 where
    g1: "write_cell g (x p + int cx) (y p + int cy) (color p) = Inr g1" "board g1"
      "\<And>r k. r < GRID_ROWS \<Longrightarrow> k < GRID_COLUMNS \<Longrightarrow>
         g1 ! r ! k = (if int r = y p + int cy \<and> int k = x p + int cx then color p else g ! r ! k)"
    by blast
  from Cons.IH [OF g1(2) rest] obtain g' where
    g': "write_cells p cs g1 = Inr g'" "board g'"
      "\<And>r k. r < GRID_ROWS \<Longrightarrow> k < GRID_COLUMNS \<Longrightarrow>
         g' ! r ! k = (if \<exists>(i, j) \<in> set cs. x p + int i = int k \<and> y p + int j = int r
                       then color p else g1 ! r ! k)"
    by blast
  have "write_cells p (c # cs) g = Inr g'"
    using g1(1) g'(1) by (simp add: c)
  moreover have "g' ! r ! k = (if \<exists>(i, j) \<in> set (c # cs). x p + int i = int k \<and> y p + int j = int r
                       then color p else g ! r ! k)"
    if "r < GRID_ROWS" "k < GRID_COLUMNS" for r k
    using g'(3) [OF that] g1(3) [OF that] by (auto simp: c)
  ultimately show ?case using g'(2) by blast
qed

lemma write_piece_with_piece:
  assumes b: "board g" and f: "fits g q 0 0"
  shows "write_piece q g = Inr (with_piece g q) \<and> board (with_piece g q)"
proof -
  have xr: "\<forall>(cx, cy) \<in> set (occupied_cells (shape q)).
              0 \<le> x q + int cx \<and> x q + int cx < int GRID_COLUMNS"
    using f by (auto simp: fits_cells cell_free_def)
  from write_cells_board [OF b xr] obtain g' where
    g': "write_cells q (occupied_cells (shape q)) g = Inr g'" "board g'"
      "\<And>r k. r < GRID_ROWS \<Longrightarrow> k < GRID_COLUMNS \<Longrightarrow>
         g' ! r ! k = (if covers q k r then color q else g ! r ! k)"
    unfolding covers_def by blast
  from b have len: "length g = GRID_ROWS" by (simp add: board_def)
  from g'(2) have len': "length g' = GRID_ROWS" by (simp add: board_def)
  have "g' = with_piece g q"
  proof (rule nth_equalityI)
    show "length g' = length (with_piece g q)"
      by (simp add: with_piece_def len len')
    fix r assume "r < length g'"
    then have r: "r < GRID_ROWS" by (simp add: len')
    show "g' ! r = with_piece g q ! r"
    proof (rule nth_equalityI)
      show "length (g' ! r) = length (with_piece g q ! r)"
        using r by (simp add: with_piece_def len board_nth [OF b] board_nth [OF g'(2)])
      fix k assume "k < length (g' ! r)"
      then have k: "k < GRID_COLUMNS" using r by (simp add: board_nth [OF g'(2)])
      show "g' ! r ! k = with_piece g q ! r ! k"
        using g'(3) [OF r k] r k by (simp add: with_piece_def len board_nth [OF b])
    qed
  qed
  with g' show ?thesis by (simp add: write_piece_def)
qed

lemma list_ex_not_black:
  "list_ex (\<lambda>cell. cell \<noteq> BLACK) row \<longleftrightarrow> \<not> list_all empty_cell row"
  by (induction row) (auto simp: empty_cell_def)

lemma board_height_loop_eq:
  "n = y' + length rows \<Longrightarrow>
   board_height_loop rows n y' =
     (if list_all (list_all empty_cell) rows then 0
      else int n - int (y' + length (takeWhile (list_all empty_cell) rows)))"
  by (induction rows arbitrary: y') (simp_all add: list_ex_not_black)

lemma calculate_board_height_eq:
  "board g \<Longrightarrow> calculate_board_height g = aggregate_height g"
  by (simp add: calculate_board_height_def aggregate_height_def board_height_loop_eq board_def)

lemma getitem_nat:
  "k < length xs \<Longrightarrow> getitem xs (int k) = Inr (xs ! k)"
  by (simp add: getitem_def py_index_def)

lemma column_height_loop_eq:
  "n = y' + length rows \<Longrightarrow> \<forall>row \<in> set rows. cx < length row \<Longrightarrow>
   column_height_loop rows cx n y' =
     Inr (if list_all empty_cell (column rows cx) then 0
          else int n - int (y' + length (takeWhile empty_cell (column rows cx))))"
  by (induction rows arbitrary: y') (simp_all add: getitem_nat column_def empty_cell_def)

lemma get_column_height_eq:
  assumes "board g" and "cx < GRID_COLUMNS"
  shows "get_column_height g cx = Inr (column_height g cx)"
proof -
  from assms have "\<forall>row \<in> set g. cx < length row" and "length g = GRID_ROWS"
    by (simp_all add: board_def)
  then show ?thesis
    by (simp add: get_column_height_def column_height_def column_height_loop_eq)
qed

lemma column_heights_eq:
  "board g \<Longrightarrow> \<forall>cx \<in> set cxs. cx < GRID_COLUMNS \<Longrightarrow>
   column_heights g cxs = Inr (map (column_height g) cxs)"
  by (induction cxs) (simp_all add: get_column_height_eq)

lemma board_row0:
  "board g \<Longrightarrow> getitem g 0 = Inr (g ! 0) \<and> length (g ! 0) = GRID_COLUMNS"
  by (simp add: board_def getitem_def py_index_def GRID_ROWS_def)

lemma calculate_bumpiness_eq:
  assumes b: "board g"
  shows "calculate_bumpiness g = Inr (bumpiness g)"
proof -
  let ?hs = "map (column_height g) [0..<GRID_COLUMNS]"
  have hs: "column_heights g [0..<GRID_COLUMNS] = Inr ?hs"
    by (rule column_heights_eq [OF b]) simp
  have "(\<Sum>i\<leftarrow>[0..<length ?hs - 1]. \<bar>?hs ! i - ?hs ! (i + 1)\<bar>) = bumpiness g"
    unfolding bumpiness_def
    by (rule arg_cong [where f = sum_list], rule map_cong) auto
  then show ?thesis
    using board_row0 [OF b] hs by (simp add: calculate_bumpiness_def)
qed

lemma holes_column_eq:
  "\<forall>row \<in> set rows. cx < length row \<Longrightarrow>
   holes_column rows cx found holes =
     Inr (holes + int (length (filter empty_cell
            (if found then column rows cx else dropWhile empty_cell (column rows cx)))))"
  by (induction rows arbitrary: found holes) (simp_all add: getitem_nat column_def empty_cell_def)

lemma holes_loop_eq:
  "\<forall>row \<in> set g. \<forall>cx \<in> set cxs. cx < length row \<Longrightarrow>
   holes_loop g cxs holes =
     Inr (holes + (\<Sum>cx\<leftarrow>cxs. int (length (filter empty_cell (dropWhile empty_cell (column g cx))))))"
  by (induction cxs arbitrary: holes) (simp_all add: holes_column_eq)

lemma calculate_holes_eq:
  assumes b: "board g"
  shows "calculate_holes g = Inr (hole_count g)"
proof -
  from b have "\<forall>row \<in> set g. \<forall>cx \<in> set [0..<GRID_COLUMNS]. cx < length row"
    by (simp add: board_def)
  from holes_loop_eq [OF this, of 0] show ?thesis
    using board_row0 [OF b] by (simp add: calculate_holes_def hole_count_def)
qed

lemma evaluate_eq:
  "board g \<Longrightarrow> evaluate g = Inr (aggregate_height g * 2 + hole_count g * 3 + bumpiness g)"
  by (simp add: evaluate_def calculate_board_height_eq calculate_holes_eq calculate_bumpiness_eq)

section \<open>The search as a fold over the candidates\<close>

lemma rows_of_live:
  assumes "take (length g) h = g"
  shows "rows_of h [0..<length g] = g" and "\<forall>a \<in> set [0..<length g]. a < length h"
proof -
  from assms have "length (take (length g) h) = length g"
    by simp
  then have le: "length g \<le> length h"
    by simp
  then show "\<forall>a \<in> set [0..<length g]. a < length h" by auto
  have "rows_of h [0..<length g] = take (length g) h"
    using le by (intro nth_equalityI) (simp_all add: rows_of_def)
  with assms show "rows_of h [0..<length g] = g" by simp
qed

lemma resting_fields [simp]:
  "shape (resting g p) = shape p" "x (resting g p) = x p" "color (resting g p) = color p"
  by (simp_all add: resting_def)

lemma try_position_update:
  assumes b: "board g" and ext: "take (length g) h = g"
    and ps: "proper_shape (shape cur)"
  shows "\<exists>h'. try_position [0..<length g] cur ((rotate ^^ r) cur) r dx (h, best)
                = Some (Inr (h', update_best g cur (r, dx) best))
             \<and> take (length g) h' = g"
proof -
  let ?live = "[0..<length g]"
  let ?tp = "((rotate ^^ r) cur)\<lparr> x := x cur + dx, y := y cur \<rparr>"
  define h1 where "h1 = fst (copy_rows h ?live)"
  define gc where "gc = snd (copy_rows h ?live)"
  define q where "q = resting g ?tp"
  have c1: "copy_rows h ?live = (h1, gc)"
    by (simp add: h1_def gc_def)
  have tp: "?tp = candidate cur (r, dx)"
    by (simp add: candidate_def)
  note live = rows_of_live [OF ext]
  from ext have "length (take (length g) h) = length g"
    by simp
  then have le: "length g \<le> length h"
    by simp
  have gc: "rows_of h1 gc = g"
    using rows_of_copy_rows [OF live(2)] live(1) by (simp add: h1_def gc_def)
  have h1: "take (length g) h1 = g"
    using le ext by (simp add: copy_rows_def h1_def)
  have occ: "occupied_cells (shape ?tp) \<noteq> []"
    using proper_shape_funpow [OF ps, of r] by (simp add: proper_shape_def)
  have dr: "drop_piece (rows_of h1 gc) ?tp = Some (Inr q)"
    unfolding gc q_def by (rule drop_piece_resting [OF b occ])
  have va: "is_valid_move q 0 0 (rows_of h1 gc) = Inr (accepted g cur (r, dx))"
    unfolding gc q_def by (simp add: is_valid_move_fits [OF b] accepted_def tp)
  have xq: "x q = x cur + dx"
    by (simp add: q_def)
  obtain bs bm where best: "best = (bs, bm)"
    by (cases best)
  show ?thesis
  proof (cases "accepted g cur (r, dx)")
    case False
    have "try_position ?live cur ((rotate ^^ r) cur) r dx (h, best) = Some (Inr (h1, best))"
      using False by (simp add: try_position_def best bind_c_def c1 dr va)
    with False h1 show ?thesis
      by (simp add: update_best_def)
  next
    case True
    then have f: "fits g q 0 0" by (simp add: accepted_def tp q_def)
    define h2 where "h2 = fst (copy_rows h1 gc)"
    define tg where "tg = snd (copy_rows h1 gc)"
    have c2: "copy_rows h1 gc = (h2, tg)"
      by (simp add: h2_def tg_def)
    have gcv: "\<forall>a \<in> set gc. a < length h1"
      by (simp add: copy_rows_def h1_def gc_def)
    have tg: "rows_of h2 tg = g"
      using rows_of_copy_rows [OF gcv] gc by (simp add: h2_def tg_def)
    have tgd: "distinct tg" and tgv: "\<forall>a \<in> set tg. a < length h2"
      and tgl: "\<forall>a \<in> set tg. length h1 \<le> a"
      by (simp_all add: copy_rows_def h2_def tg_def)
    from write_piece_with_piece [OF b f]
    have wp: "write_cells q (occupied_cells (shape q)) (rows_of h2 tg) = Inr (with_piece g q)"
      and bw: "board (with_piece g q)"
      by (simp_all add: write_piece_def tg)
    from store_cells_write_cells [OF tgd tgv wp] obtain h3 where
      h3: "store_cells q (occupied_cells (shape q)) tg h2 = Inr h3"
      and r3: "rows_of h3 tg = with_piece g q"
      by blast
    have "take (length h1) h3 = take (length h1) h2"
      by (rule store_cells_prefix [OF h3 tgl])
    also have "\<dots> = h1"
      by (simp add: copy_rows_def h2_def)
    finally have p3: "take (length h1) h3 = h1" .
    have l1: "length g \<le> length h1"
      using le by (simp add: copy_rows_def h1_def)
    have "take (length g) h3 = take (length g) (take (length h1) h3)"
      using l1 by (simp add: min_absorb1)
    then have e3: "take (length g) h3 = g"
      using p3 h1 by simp
    have ev: "evaluate (rows_of h3 tg) = Inr (candidate_score g cur (r, dx))"
      unfolding r3 using evaluate_eq [OF bw] by (simp add: candidate_score_def Let_def tp q_def)
    have "try_position ?live cur ((rotate ^^ r) cur) r dx (h, best)
            = Some (Inr (h3, update_best g cur (r, dx) best))"
      using True
      by (simp add: try_position_def best bind_c_def c1 c2 dr va h3 ev update_best_def xq)
    with e3 show ?thesis by blast
  qed
qed

lemma for_each_positions:
  assumes b: "board g" and ps: "proper_shape (shape cur)"
  shows "take (length g) h = g \<Longrightarrow>
         \<exists>h'. for_each dxs (try_position [0..<length g] cur ((rotate ^^ r) cur) r) (h, best)
                = Some (Inr (h', fold (\<lambda>dx. update_best g cur (r, dx)) dxs best))
             \<and> take (length g) h' = g"
proof (induction dxs arbitrary: h best)
  case Nil
  then show ?case by simp
next
  case (Cons dx dxs)
  from try_position_update [OF b Cons.prems ps, of r dx best] obtain h1 where
    1: "try_position [0..<length g] cur ((rotate ^^ r) cur) r dx (h, best)
          = Some (Inr (h1, update_best g cur (r, dx) best))"
    and e1: "take (length g) h1 = g"
    by blast
  from Cons.IH [OF e1, of "update_best g cur (r, dx) best"] 1 show ?case
    by (simp add: bind_c_def)
qed

lemma for_each_rotations:
  assumes b: "board g" and ps: "proper_shape (shape cur)"
  shows "take (length g) h = g \<Longrightarrow>
         \<exists>h'. for_each rs (try_rotation [0..<length g] cur) (h, best)
                = Some (Inr (h', fold (update_best g cur) (concat (map (\<lambda>r. map (\<lambda>dx. (r, dx)) [- 5..5]) rs)) best))
             \<and> take (length g) h' = g"
proof (induction rs arbitrary: h best)
  case Nil
  then show ?case by simp
next
  case (Cons r rs)
  from for_each_positions [OF b ps Cons.prems, of "[- 5..5]" r best] obtain h1 where
    1: "try_rotation [0..<length g] cur r (h, best)
          = Some (Inr (h1, fold (\<lambda>dx. update_best g cur (r, dx)) [- 5..5] best))"
    and e1: "take (length g) h1 = g"
    unfolding try_rotation_def Let_def by blast
  from Cons.IH [OF e1, of "fold (\<lambda>dx. update_best g cur (r, dx)) [- 5..5] best"] 1 show ?case
    by (simp add: bind_c_def fold_map comp_def)
qed

lemma search_fold:
  assumes b: "board (grid pl)" and ps: "proper_shape (shape (current_piece pl))"
  shows "\<exists>h'. search [0..<length (grid pl)] (current_piece pl) (grid pl)
                = Some (Inr (h', fold (update_best (grid pl) (current_piece pl)) search_order
                                   (None, 0, x (current_piece pl))))
             \<and> take (length (grid pl)) h' = grid pl"
  unfolding search_def search_order_def
  by (rule for_each_rotations [OF b ps]) simp

lemma make_move_fold:
  assumes b: "board (grid pl)" and ps: "proper_shape (shape (current_piece pl))"
    and res: "fold (update_best (grid pl) (current_piece pl)) search_order
                (None, 0, x (current_piece pl)) = (best_score, rotation, best_x)"
  shows "make_move pl = Some (Inr (pl\<lparr> current_piece :=
            ((rotate ^^ rotation) (current_piece pl))\<lparr> x := best_x \<rparr> \<rparr>))"
proof -
  from search_fold [OF b ps] obtain h' where
    s: "search [0..<length (grid pl)] (current_piece pl) (grid pl)
          = Some (Inr (h', best_score, rotation, best_x))"
    and e: "take (length (grid pl)) h' = grid pl"
    unfolding res by blast
  have "rows_of h' [0..<length (grid pl)] = grid pl"
    by (rule rows_of_live(1) [OF e])
  then show ?thesis
    by (simp add: make_move_def Let_def bind_c_def s)
qed

lemma fold_update_best:
  "(\<forall>c \<in> set cs. \<not> accepted g cur c) \<and> fold (update_best g cur) cs (None, m0) = (None, m0)
   \<or> (\<exists>i < length cs. accepted g cur (cs ! i)
        \<and> fold (update_best g cur) cs (None, m0)
            = (Some (candidate_score g cur (cs ! i)), fst (cs ! i), x cur + snd (cs ! i))
        \<and> (\<forall>j < length cs. accepted g cur (cs ! j) \<longrightarrow>
              candidate_score g cur (cs ! i) \<le> candidate_score g cur (cs ! j))
        \<and> (\<forall>j < i. accepted g cur (cs ! j) \<longrightarrow>
              candidate_score g cur (cs ! i) < candidate_score g cur (cs ! j)))"
  (is "?none cs \<or> ?some cs")
proof (induction cs rule: rev_induct)
  case Nil
  then show ?case by simp
next
  case (snoc c cs)
  let ?sc = "candidate_score g cur"
  have step: "fold (update_best g cur) (cs @ [c]) (None, m0)
                = update_best g cur c (fold (update_best g cur) cs (None, m0))"
    by simp
  from snoc.IH show ?case
  proof
    assume none: "?none cs"
    show ?thesis
    proof (cases "accepted g cur c")
      case False
      from none have fn: "fold (update_best g cur) cs (None, m0) = (None, m0)"
        by blast
      have "fold (update_best g cur) (cs @ [c]) (None, m0) = (None, m0)"
        unfolding step fn using False by (simp add: update_best_def)
      with none False have "?none (cs @ [c])"
        by simp
      then show ?thesis ..
    next
      case True
      have "?some (cs @ [c])"
      proof (intro exI [of _ "length cs"] conjI allI impI)
        show "length cs < length (cs @ [c])" by simp
        show "accepted g cur ((cs @ [c]) ! length cs)" using True by simp
        show "fold (update_best g cur) (cs @ [c]) (None, m0)
                = (Some (?sc ((cs @ [c]) ! length cs)), fst ((cs @ [c]) ! length cs),
                   x cur + snd ((cs @ [c]) ! length cs))"
        proof -
          from none have fn: "fold (update_best g cur) cs (None, m0) = (None, m0)"
            by blast
          show ?thesis
            unfolding step fn using True by (simp add: update_best_def improves_def)
        qed
      next
        fix j assume "j < length (cs @ [c])" and a: "accepted g cur ((cs @ [c]) ! j)"
        then have "j = length cs"
          using none by (cases "j < length cs") (auto simp: nth_append)
        then show "?sc ((cs @ [c]) ! length cs) \<le> ?sc ((cs @ [c]) ! j)" by simp
      next
        fix j assume "j < length cs" and "accepted g cur ((cs @ [c]) ! j)"
        with none show "?sc ((cs @ [c]) ! length cs) < ?sc ((cs @ [c]) ! j)"
          by (auto simp: nth_append)
      qed
      then show ?thesis ..
    qed
  next
    assume "?some cs"
    then obtain i where i: "i < length cs" "accepted g cur (cs ! i)"
      and f: "fold (update_best g cur) cs (None, m0)
            = (Some (?sc (cs ! i)), fst (cs ! i), x cur + snd (cs ! i))"
      and le: "\<And>j. j < length cs \<Longrightarrow> accepted g cur (cs ! j) \<Longrightarrow> ?sc (cs ! i) \<le> ?sc (cs ! j)"
      and lt: "\<And>j. j < i \<Longrightarrow> accepted g cur (cs ! j) \<Longrightarrow> ?sc (cs ! i) < ?sc (cs ! j)"
      by blast
    show ?thesis
    proof (cases "accepted g cur c \<and> ?sc c < ?sc (cs ! i)")
      case True
      have "?some (cs @ [c])"
      proof (intro exI [of _ "length cs"] conjI allI impI)
        show "length cs < length (cs @ [c])" by simp
        show "accepted g cur ((cs @ [c]) ! length cs)" using True by simp
        show "fold (update_best g cur) (cs @ [c]) (None, m0)
                = (Some (?sc ((cs @ [c]) ! length cs)), fst ((cs @ [c]) ! length cs),
                   x cur + snd ((cs @ [c]) ! length cs))"
          unfolding step f using True by (simp add: update_best_def improves_def)
      next
        fix j assume j: "j < length (cs @ [c])" and a: "accepted g cur ((cs @ [c]) ! j)"
        show "?sc ((cs @ [c]) ! length cs) \<le> ?sc ((cs @ [c]) ! j)"
        proof (cases "j < length cs")
          case False
          with j have "j = length cs" by simp
          then show ?thesis by simp
        next
          case jl: True
          with a have "accepted g cur (cs ! j)" by (simp add: nth_append)
          from le [OF jl this] True show ?thesis using jl by (simp add: nth_append)
        qed
      next
        fix j assume jl: "j < length cs" and a: "accepted g cur ((cs @ [c]) ! j)"
        then have "accepted g cur (cs ! j)" by (simp add: nth_append)
        from le [OF jl this] True show "?sc ((cs @ [c]) ! length cs) < ?sc ((cs @ [c]) ! j)"
          using jl by (simp add: nth_append)
      qed
      then show ?thesis ..
    next
      case False
      have "?some (cs @ [c])"
      proof (intro exI [of _ i] conjI allI impI)
        show "i < length (cs @ [c])" using i(1) by simp
        show "accepted g cur ((cs @ [c]) ! i)" using i by (simp add: nth_append)
        show "fold (update_best g cur) (cs @ [c]) (None, m0)
                = (Some (?sc ((cs @ [c]) ! i)), fst ((cs @ [c]) ! i), x cur + snd ((cs @ [c]) ! i))"
          unfolding step f using False i(1) by (auto simp: update_best_def improves_def nth_append)
      next
        fix j assume j: "j < length (cs @ [c])" and a: "accepted g cur ((cs @ [c]) ! j)"
        show "?sc ((cs @ [c]) ! i) \<le> ?sc ((cs @ [c]) ! j)"
        proof (cases "j < length cs")
          case False
          with j have "j = length cs" by simp
          with a False \<open>\<not> (accepted g cur c \<and> ?sc c < ?sc (cs ! i))\<close> i(1)
          show ?thesis by (simp add: nth_append)
        next
          case jl: True
          with a have "accepted g cur (cs ! j)" by (simp add: nth_append)
          from le [OF jl this] show ?thesis using jl i(1) by (simp add: nth_append)
        qed
      next
        fix j assume ji: "j < i" and a: "accepted g cur ((cs @ [c]) ! j)"
        then have "accepted g cur (cs ! j)" using i(1) by (simp add: nth_append)
        from lt [OF ji this] show "?sc ((cs @ [c]) ! i) < ?sc ((cs @ [c]) ! j)"
          using ji i(1) by (simp add: nth_append)
      qed
      then show ?thesis ..
    qed
  qed
qed

lemma length_search_order: "length search_order = 44"
  by code_simp

text \<open>
  Claim C3.  On a board, with a falling piece of a proper shape and at least one
  accepted candidate, \<^verbatim>\<open>make_move\<close> returns, and the rotation count and the column it
  applies to the live piece are those of a candidate \<open>search_order ! i\<close> that is
  accepted, whose score (twice the aggregate height plus three times the holes plus the
  bumpiness of the grid with the dropped candidate written in) is at most the score of
  every accepted candidate, and strictly below the score of every accepted candidate
  tried before it: the first candidate of least score in the order of the search,
  rotations 0 to 3 and, for each rotation, offsets -5 to 5.
\<close>

theorem make_move_minimises:
  assumes b: "board (grid pl)" and ps: "proper_shape (shape (current_piece pl))"
    and ex: "\<exists>c \<in> set search_order. accepted (grid pl) (current_piece pl) c"
  shows "\<exists>i < length search_order.
           accepted (grid pl) (current_piece pl) (search_order ! i)
         \<and> (\<forall>j < length search_order. accepted (grid pl) (current_piece pl) (search_order ! j) \<longrightarrow>
               candidate_score (grid pl) (current_piece pl) (search_order ! i)
                 \<le> candidate_score (grid pl) (current_piece pl) (search_order ! j))
         \<and> (\<forall>j < i. accepted (grid pl) (current_piece pl) (search_order ! j) \<longrightarrow>
               candidate_score (grid pl) (current_piece pl) (search_order ! i)
                 < candidate_score (grid pl) (current_piece pl) (search_order ! j))
         \<and> make_move pl = Some (Inr (pl\<lparr> current_piece :=
               ((rotate ^^ fst (search_order ! i)) (current_piece pl))
                 \<lparr> x := x (current_piece pl) + snd (search_order ! i) \<rparr> \<rparr>))"
proof -
  let ?g = "grid pl" and ?cur = "current_piece pl"
  from fold_update_best [of search_order ?g ?cur "(0, x ?cur)"] ex
  obtain i where i: "i < length search_order" "accepted ?g ?cur (search_order ! i)"
    and f: "fold (update_best ?g ?cur) search_order (None, 0, x ?cur)
            = (Some (candidate_score ?g ?cur (search_order ! i)), fst (search_order ! i),
               x ?cur + snd (search_order ! i))"
    and le: "\<forall>j < length search_order. accepted ?g ?cur (search_order ! j) \<longrightarrow>
              candidate_score ?g ?cur (search_order ! i) \<le> candidate_score ?g ?cur (search_order ! j)"
    and lt: "\<forall>j < i. accepted ?g ?cur (search_order ! j) \<longrightarrow>
              candidate_score ?g ?cur (search_order ! i) < candidate_score ?g ?cur (search_order ! j)"
    by blast
  from make_move_fold [OF b ps f] i le lt show ?thesis
    by blast
qed

text \<open>
  Claim C8.  On a board, with a falling piece of a proper shape, when none of the 44
  candidates is accepted, \<^verbatim>\<open>make_move\<close> returns and leaves the player as it was: the
  shape, \<open>x\<close> and \<open>y\<close> of the live piece are unchanged.
\<close>

theorem make_move_no_candidate:
  assumes b: "board (grid pl)" and ps: "proper_shape (shape (current_piece pl))"
    and no: "\<forall>c \<in> set search_order. \<not> accepted (grid pl) (current_piece pl) c"
  shows "make_move pl = Some (Inr pl)"
proof -
  let ?g = "grid pl" and ?cur = "current_piece pl"
  from fold_update_best [of search_order ?g ?cur "(0, x ?cur)"] no
  have "fold (update_best ?g ?cur) search_order (None, 0, x ?cur) = (None, 0, x ?cur)"
    by (metis nth_mem)
  from make_move_fold [OF b ps this] show ?thesis
    by simp
qed

section \<open>What the search leaves unchanged\<close>

lemma bind_c_InrE:
  assumes "bind_c m f = Some (Inr v)"
  obtains a where "m = Some (Inr a)" and "f a = Some (Inr v)"
  using assms by (cases m) (auto simp: bind_c_def split: sum.splits)

lemma for_each_preserves:
  "\<forall>i \<in> set xs. \<forall>s s'. P s \<longrightarrow> body i s = Some (Inr s') \<longrightarrow> P s' \<Longrightarrow>
   P s \<Longrightarrow> for_each xs body s = Some (Inr s') \<Longrightarrow> P s'"
proof (induction xs arbitrary: s)
  case Nil
  then show ?case by simp
next
  case (Cons i xs)
  from Cons.prems(3) have "bind_c (body i s) (\<lambda>s1. for_each xs body s1) = Some (Inr s')"
    by simp
  then obtain s1 where 1: "body i s = Some (Inr s1)"
    and 2: "for_each xs body s1 = Some (Inr s')"
    by (rule bind_c_InrE) blast
  from Cons.prems(1,2) 1 have "P s1"
    by (meson list.set_intros(1))
  moreover from Cons.prems(1)
  have "\<forall>i \<in> set xs. \<forall>s s'. P s \<longrightarrow> body i s = Some (Inr s') \<longrightarrow> P s'"
    by (meson list.set_intros(2))
  ultimately show ?case
    using Cons.IH 2 by blast
qed

lemma for_each_invariant:
  assumes "\<And>i s s'. i \<in> set xs \<Longrightarrow> P s \<Longrightarrow> body i s = Some (Inr s') \<Longrightarrow> P s'"
    and "P s" and "for_each xs body s = Some (Inr s')"
  shows "P s'"
  using for_each_preserves [of xs P body s s'] assms by blast

lemma try_position_untouched:
  assumes u: "untouched h0 st" and r: "r < 4"
    and t: "try_position live cur tp r dx st = Some (Inr st')"
  shows "untouched h0 st'"
proof -
  obtain h bs bm where st: "st = (h, bs, bm)"
    by (cases st)
  define h1 where "h1 = fst (copy_rows h live)"
  define gc where "gc = snd (copy_rows h live)"
  have c1: "copy_rows h live = (h1, gc)"
    by (simp add: h1_def gc_def)
  define h2 where "h2 = fst (copy_rows h1 gc)"
  define tg where "tg = snd (copy_rows h1 gc)"
  have c2: "copy_rows h1 gc = (h2, tg)"
    by (simp add: h2_def tg_def)
  from u have e: "take (length h0) h = h0" and m: "fst bm < 4"
    by (simp_all add: untouched_def st)
  from e have "length (take (length h0) h) = length h0"
    by simp
  then have le: "length h0 \<le> length h"
    by simp
  have e1: "take (length h0) h1 = h0"
    using le e by (simp add: h1_def copy_rows_def)
  have l1: "length h \<le> length h1"
    by (simp add: h1_def copy_rows_def)
  have p2: "take (length h1) h2 = h1"
    by (simp add: h2_def copy_rows_def)
  have tgl: "\<forall>a \<in> set tg. length h1 \<le> a"
    by (simp add: tg_def copy_rows_def)
  have e3: "take (length h0) h3 = h0"
    if "store_cells q cs tg h2 = Inr h3" for q cs h3
  proof -
    from store_cells_prefix [OF that tgl] p2 have "take (length h1) h3 = h1"
      by simp
    moreover have "take (length h0) h3 = take (length h0) (take (length h1) h3)"
      using le l1 by (simp add: min_absorb1)
    ultimately show ?thesis using e1 by simp
  qed
  let ?tp = "tp\<lparr> x := x cur + dx, y := y cur \<rparr>"
  from t have "bind_c (drop_piece (rows_of h1 gc) ?tp) (\<lambda>temp_piece.
            bind_c (Some (is_valid_move temp_piece 0 0 (rows_of h1 gc))) (\<lambda>ok.
              if ok then
                (let (h2, test_grid) = copy_rows h1 gc
                 in bind_c (Some (store_cells temp_piece (occupied_cells (shape temp_piece)) test_grid h2)) (\<lambda>h3.
                    bind_c (Some (evaluate (rows_of h3 test_grid))) (\<lambda>sc.
                      if improves sc bs
                      then Some (Inr (h3, Some sc, (r, x temp_piece)))
                      else Some (Inr (h3, bs, bm)))))
              else Some (Inr (h1, bs, bm)))) = Some (Inr st')"
    by (simp add: try_position_def st c1)
  then obtain q where
    t1: "bind_c (Some (is_valid_move q 0 0 (rows_of h1 gc))) (\<lambda>ok.
              if ok then
                (let (h2, test_grid) = copy_rows h1 gc
                 in bind_c (Some (store_cells q (occupied_cells (shape q)) test_grid h2)) (\<lambda>h3.
                    bind_c (Some (evaluate (rows_of h3 test_grid))) (\<lambda>sc.
                      if improves sc bs
                      then Some (Inr (h3, Some sc, (r, x q)))
                      else Some (Inr (h3, bs, bm)))))
              else Some (Inr (h1, bs, bm))) = Some (Inr st')"
    by (rule bind_c_InrE) blast
  then obtain ok where
    t2: "(if ok then
                (let (h2, test_grid) = copy_rows h1 gc
                 in bind_c (Some (store_cells q (occupied_cells (shape q)) test_grid h2)) (\<lambda>h3.
                    bind_c (Some (evaluate (rows_of h3 test_grid))) (\<lambda>sc.
                      if improves sc bs
                      then Some (Inr (h3, Some sc, (r, x q)))
                      else Some (Inr (h3, bs, bm)))))
              else Some (Inr (h1, bs, bm))) = Some (Inr st')"
    by (rule bind_c_InrE) blast
  show ?thesis
  proof (cases ok)
    case False
    with t2 have "st' = (h1, bs, bm)" by simp
    with e1 m show ?thesis by (simp add: untouched_def)
  next
    case True
    with t2 have "bind_c (Some (store_cells q (occupied_cells (shape q)) tg h2)) (\<lambda>h3.
                    bind_c (Some (evaluate (rows_of h3 tg))) (\<lambda>sc.
                      if improves sc bs
                      then Some (Inr (h3, Some sc, (r, x q)))
                      else Some (Inr (h3, bs, bm)))) = Some (Inr st')"
      by (simp add: c2)
    then obtain h3 where s3: "Some (store_cells q (occupied_cells (shape q)) tg h2) = Some (Inr h3)"
      and t3: "bind_c (Some (evaluate (rows_of h3 tg))) (\<lambda>sc.
                      if improves sc bs
                      then Some (Inr (h3, Some sc, (r, x q)))
                      else Some (Inr (h3, bs, bm))) = Some (Inr st')"
      by (rule bind_c_InrE) blast
    from t3 obtain sc where
      t4: "(if improves sc bs then Some (Inr (h3, Some sc, (r, x q)))
            else Some (Inr (h3, bs, bm))) = (Some (Inr st') :: (error + _) option)"
      by (rule bind_c_InrE) blast
    from s3 have "take (length h0) h3 = h0"
      by (intro e3 [of q "occupied_cells (shape q)"]) simp
    with t4 m r show ?thesis
      by (cases "improves sc bs") (auto simp: untouched_def)
  qed
qed

lemma try_rotation_untouched:
  assumes u: "untouched h0 st" and r: "r < 4"
    and t: "try_rotation live cur r st = Some (Inr st')"
  shows "untouched h0 st'"
proof (rule for_each_invariant [where P = "untouched h0", OF _ u])
  show "for_each [- 5..5] (try_position live cur ((rotate ^^ r) cur) r) st = Some (Inr st')"
    using t unfolding try_rotation_def Let_def .
  show "untouched h0 s'"
    if "untouched h0 s" "try_position live cur ((rotate ^^ r) cur) r i s = Some (Inr s')"
    for i s s'
    by (rule try_position_untouched [OF that(1) r that(2)])
qed

lemma search_untouched:
  assumes "search live cur h0 = Some (Inr st')"
  shows "untouched h0 st'"
proof (rule for_each_invariant [where P = "untouched h0"])
  show "untouched h0 (h0, None, (0, x cur))"
    by (simp add: untouched_def)
  show "for_each [0..<4] (try_rotation live cur) (h0, None, (0, x cur)) = Some (Inr st')"
    using assms by (simp add: search_def)
  show "untouched h0 s'"
    if "i \<in> set [0..<4]" "untouched h0 s" "try_rotation live cur i s = Some (Inr s')"
    for i s s'
    by (rule try_rotation_untouched [OF that(2) _ that(3)]) (use that(1) in simp)
qed


lemma make_move_returns:
  assumes b: "board (grid pl)" and ps: "proper_shape (shape (current_piece pl))"
  shows "\<exists>pl'. make_move pl = Some (Inr pl')"
proof -
  obtain bs r bx where "fold (update_best (grid pl) (current_piece pl)) search_order
                (None, 0, x (current_piece pl)) = (bs, r, bx)"
    by (cases "fold (update_best (grid pl) (current_piece pl)) search_order
                (None, 0, x (current_piece pl))") auto
  from make_move_fold [OF b ps this] show ?thesis
    by blast
qed

text \<open>
  Claim C4.  Whenever \<^verbatim>\<open>make_move\<close> returns, the grid of the player is cell for cell
  what it was (every write of the search went to a row object made by the search
  itself), the \<open>y\<close> and the colour of the live piece, the score, the game-over flag and
  the survival time are unchanged, and the shape of the live piece is the old shape
  rotated at most three times; only the shape and \<open>x\<close> of the piece may differ.  On a
  board, with a piece of a proper shape, \<^verbatim>\<open>make_move\<close> does return.
\<close>

theorem make_move_frame:
  "(\<forall>pl'. make_move pl = Some (Inr pl') \<longrightarrow>
      grid pl' = grid pl
    \<and> y (current_piece pl') = y (current_piece pl)
    \<and> color (current_piece pl') = color (current_piece pl)
    \<and> (\<exists>r < 4. shape (current_piece pl') = shape ((rotate ^^ r) (current_piece pl)))
    \<and> game_over pl' = game_over pl \<and> score pl' = score pl
    \<and> survival_time pl' = survival_time pl)
   \<and> (board (grid pl) \<and> proper_shape (shape (current_piece pl)) \<longrightarrow>
        (\<exists>pl'. make_move pl = Some (Inr pl')))"
proof (intro conjI allI impI)
  fix pl' assume m: "make_move pl = Some (Inr pl')"
  let ?live = "[0..<length (grid pl)]"
  from m have "bind_c (search ?live (current_piece pl) (grid pl))
         (\<lambda>(h, best_score, (rotation, best_x)).
           Some (Inr (pl\<lparr> grid := rows_of h ?live,
                          current_piece := ((rotate ^^ rotation) (current_piece pl))\<lparr> x := best_x \<rparr> \<rparr>)))
         = Some (Inr pl')"
    by (simp add: make_move_def Let_def)
  then obtain st where s: "search ?live (current_piece pl) (grid pl) = Some (Inr st)"
    and m': "(case st of (h, best_score, rotation, best_x) \<Rightarrow>
           Some (Inr (pl\<lparr> grid := rows_of h ?live,
                          current_piece := ((rotate ^^ rotation) (current_piece pl))\<lparr> x := best_x \<rparr> \<rparr>)))
         = (Some (Inr pl') :: (error + player) option)"
    by (rule bind_c_InrE) blast
  obtain h bs r bx where st: "st = (h, bs, r, bx)"
    by (cases st) auto
  from m' have pl': "pl' = pl\<lparr> grid := rows_of h ?live,
                current_piece := ((rotate ^^ r) (current_piece pl))\<lparr> x := bx \<rparr> \<rparr>"
    by (simp add: st)
  note s = s [unfolded st]
  from search_untouched [OF s] have e: "take (length (grid pl)) h = grid pl" and r: "r < 4"
    by (simp_all add: untouched_def)
  have g: "rows_of h ?live = grid pl"
    by (rule rows_of_live(1) [OF e])
  show "grid pl' = grid pl" by (simp add: pl' g)
  show "y (current_piece pl') = y (current_piece pl)" by (simp add: pl')
  show "color (current_piece pl') = color (current_piece pl)" by (simp add: pl')
  show "\<exists>r < 4. shape (current_piece pl') = shape ((rotate ^^ r) (current_piece pl))"
    using r by (auto simp: pl')
  show "game_over pl' = game_over pl" by (simp add: pl')
  show "score pl' = score pl" by (simp add: pl')
  show "survival_time pl' = survival_time pl" by (simp add: pl')
next
  assume "board (grid pl) \<and> proper_shape (shape (current_piece pl))"
  then show "\<exists>pl'. make_move pl = Some (Inr pl')"
    using make_move_returns by blast
qed

section \<open>Two boards on which the search is run\<close>

lemma board_reset_player: "board (grid (reset_player k))"
  by (simp add: reset_player_def board_def)

lemma Tetromino_0:
  "shape (Tetromino 0) = [[1, 1, 1, 1]]" "x (Tetromino 0) = 3" "y (Tetromino 0) = 0"
  by (simp_all add: Tetromino_def SHAPES_def GAME_WIDTH_def GRID_COLUMNS_def BLOCK_SIZE_def)

lemma occupied_I: "occupied_cells [[1, 1, 1, 1]] = [(0, 0), (1, 0), (2, 0), (3, 0)]"
  by (simp add: occupied_cells_def)

lemma proper_shape_I: "proper_shape (shape (Tetromino 0))"
  by (simp add: proper_shape_def Tetromino_0 occupied_I)

lemma resting_eq:
  assumes "\<forall>j < k. fits g (p\<lparr> y := y p + int j \<rparr>) 0 1"
    and "\<not> fits g (p\<lparr> y := y p + int k \<rparr>) 0 1"
  shows "resting g p = p\<lparr> y := y p + int k \<rparr>"
proof -
  have "(LEAST k. \<not> fits g (p\<lparr> y := y p + int k \<rparr>) 0 1) = k"
  proof (rule Least_equality)
    show "\<not> fits g (p\<lparr> y := y p + int k \<rparr>) 0 1" by (rule assms(2))
  next
    fix j assume "\<not> fits g (p\<lparr> y := y p + int j \<rparr>) 0 1"
    with assms(1) show "k \<le> j" by (meson not_le)
  qed
  then show ?thesis by (simp add: resting_def)
qed

lemma cell_free_reset:
  "cell_free (grid (reset_player k)) nx ny \<longleftrightarrow> 0 \<le> nx \<and> nx < 10 \<and> ny < 20"
proof (cases "0 \<le> nx \<and> nx < 10 \<and> 0 \<le> ny \<and> ny < 20")
  case True
  then have "nat ny < 20" "nat nx < 10" by linarith+
  then have "grid (reset_player k) ! nat ny ! nat nx = BLACK"
    by (simp add: reset_player_def GRID_ROWS_def GRID_COLUMNS_def)
  with True show ?thesis
    by (simp add: cell_free_def GRID_ROWS_def GRID_COLUMNS_def)
next
  case False
  then show ?thesis
    by (auto simp: cell_free_def GRID_ROWS_def GRID_COLUMNS_def)
qed

lemma fits_I:
  "fits (grid (reset_player 0)) ((Tetromino 0)\<lparr> y := j \<rparr>) 0 dy \<longleftrightarrow> j + dy < 20"
  by (auto simp: fits_cells Tetromino_0 occupied_I cell_free_reset)

lemma accepted_I: "accepted (grid (reset_player 0)) (Tetromino 0) (0, 0)"
proof -
  have c: "candidate (Tetromino 0) (0, 0) = Tetromino 0"
    by (simp add: candidate_def)
  have "resting (grid (reset_player 0)) (Tetromino 0) = (Tetromino 0)\<lparr> y := y (Tetromino 0) + int 19 \<rparr>"
    by (rule resting_eq) (simp_all add: fits_I Tetromino_0)
  then show ?thesis
    by (simp add: accepted_def c fits_I Tetromino_0)
qed

lemma in_search_order: "(0, 0) \<in> set search_order"
  by code_simp

lemma full_board_rejects:
  assumes full: "\<forall>r < GRID_ROWS. \<forall>k < GRID_COLUMNS. g ! r ! k \<noteq> BLACK"
    and c: "(cx, cy) \<in> set (occupied_cells (shape p))" and y0: "0 \<le> y p + dy"
  shows "\<not> fits g p dx dy"
proof
  assume "fits g p dx dy"
  with c have f: "cell_free g (x p + int cx + dx) (y p + int cy + dy)"
    by (auto simp: fits_cells)
  let ?nx = "x p + int cx + dx" and ?ny = "y p + int cy + dy"
  from f y0 have "nat ?ny < GRID_ROWS" "nat ?nx < GRID_COLUMNS" "g ! nat ?ny ! nat ?nx = BLACK"
    by (auto simp: cell_free_def)
  with full show False by blast
qed

lemma full_player_rejects: "\<not> accepted (grid full_player) (current_piece full_player) c"
proof -
  let ?p = "candidate (Tetromino 0) c"
  have "proper_shape (shape ?p)"
    using proper_shape_funpow [OF proper_shape_I, of "fst c"] by (simp add: candidate_def)
  then obtain cx cy where c: "(cx, cy) \<in> set (occupied_cells (shape ?p))"
    unfolding proper_shape_def by (cases "occupied_cells (shape ?p)") auto
  have full: "\<forall>r < GRID_ROWS. \<forall>k < GRID_COLUMNS. grid full_player ! r ! k \<noteq> BLACK"
    by (simp add: full_player_def GRID_ROWS_def GRID_COLUMNS_def BLACK_def)
  have "y ?p = 0"
    by (simp add: candidate_def Tetromino_0)
  then have "0 \<le> y (resting (grid full_player) ?p) + 0"
    by (simp add: resting_def)
  from full_board_rejects [OF full _ this, of cx cy 0] c show ?thesis
    by (simp add: accepted_def full_player_def)
qed

text \<open>
  Witness of C3: the first move of a game, an I-piece over the empty board.
\<close>

theorem make_move_minimises_witness:
  "\<exists>i < length search_order.
      make_move (reset_player 0) = Some (Inr ((reset_player 0)\<lparr> current_piece :=
         ((rotate ^^ fst (search_order ! i)) (Tetromino 0))\<lparr> x := 3 + snd (search_order ! i) \<rparr> \<rparr>))"
proof -
  have cur: "current_piece (reset_player 0) = Tetromino 0"
    by (simp add: reset_player_def)
  have "\<exists>c \<in> set search_order. accepted (grid (reset_player 0)) (current_piece (reset_player 0)) c"
    using accepted_I in_search_order unfolding cur by blast
  from make_move_minimises [OF board_reset_player _ this] proper_shape_I show ?thesis
    unfolding cur Tetromino_0 by blast
qed

text \<open>
  Witness of C8: a board with every cell occupied.
\<close>

theorem make_move_no_candidate_witness:
  "make_move full_player = Some (Inr full_player)"
proof -
  have b: "board (grid full_player)"
    by (simp add: full_player_def board_def GRID_ROWS_def GRID_COLUMNS_def)
  have p: "proper_shape (shape (current_piece full_player))"
    using proper_shape_I by (simp add: full_player_def)
  from make_move_no_candidate [OF b p] full_player_rejects show ?thesis
    by blast
qed

text \<open>
  Witness of C4: the first move of a game.
\<close>

theorem make_move_frame_witness:
  "\<exists>pl'. make_move (reset_player 0) = Some (Inr pl')
        \<and> grid pl' = grid (reset_player 0) \<and> y (current_piece pl') = 0"
proof -
  have cur: "current_piece (reset_player 0) = Tetromino 0"
    by (simp add: reset_player_def)
  from make_move_frame [of "reset_player 0"] board_reset_player [of 0] proper_shape_I
  show ?thesis
    by (auto simp: cur Tetromino_0)
qed


section \<open>The end of a session\<close>

lemma try_move_game_over:
  "try_move dx dy pl = Inr pl' \<Longrightarrow> game_over pl' = game_over pl"
  by (auto simp: try_move_def split: sum.splits if_splits)

lemma try_rotate_game_over:
  "try_rotate pl = Inr pl' \<Longrightarrow> game_over pl' = game_over pl"
  by (auto simp: try_rotate_def Let_def split: sum.splits if_splits)

lemma human_key_settled:
  assumes act: "\<And>pl pl'. act pl = Inr pl' \<Longrightarrow> game_over pl' = game_over pl"
    and s: "settled g" and h: "human_key act g = Inr r"
  shows "settled (state_of r)"
proof (cases "paused g")
  case True
  with h s show ?thesis by (auto simp: human_key_def)
next
  case False
  with h obtain pl where pl: "act (human_player g) = Inr pl"
    and r: "r = Continue (g\<lparr> human_player := pl \<rparr>)"
    by (auto simp: human_key_def split: sum.splits)
  from act [OF pl] s show ?thesis
    by (simp add: r settled_def)
qed

lemma handle_event_settled:
  "settled g \<Longrightarrow> handle_event e g = Inr r \<Longrightarrow> settled (state_of r)"
proof (cases e)
  case K_LEFT
  assume "settled g" "handle_event e g = Inr r"
  then show ?thesis
    using human_key_settled [of "try_move (- 1) 0" g r] try_move_game_over by (simp add: K_LEFT)
next
  case K_RIGHT
  assume "settled g" "handle_event e g = Inr r"
  then show ?thesis
    using human_key_settled [of "try_move 1 0" g r] try_move_game_over by (simp add: K_RIGHT)
next
  case K_DOWN
  assume "settled g" "handle_event e g = Inr r"
  then show ?thesis
    using human_key_settled [of "try_move 0 1" g r] try_move_game_over by (simp add: K_DOWN)
next
  case K_UP
  assume "settled g" "handle_event e g = Inr r"
  then show ?thesis
    using human_key_settled [of try_rotate g r] try_rotate_game_over by (simp add: K_UP)
qed (auto simp: settled_def reset_def reset_player_def split: if_splits)

lemma handle_events_settled:
  "settled g \<Longrightarrow> handle_events es g = Inr r \<Longrightarrow> settled (state_of r)"
proof (induction es arbitrary: g)
  case Nil
  then show ?case by auto
next
  case (Cons e es)
  from Cons.prems(2) obtain r1 where e: "handle_event e g = Inr r1"
    by (auto split: sum.splits)
  note s1 = handle_event_settled [OF Cons.prems(1) e]
  show ?case
  proof (cases r1)
    case (Continue g1)
    with Cons.prems(2) e have "handle_events es g1 = Inr r" by simp
    from Cons.IH [OF _ this] s1 Continue show ?thesis by simp
  next
    case (Returned g1)
    with Cons.prems(2) e have "r = Returned g1" by simp
    with s1 Returned show ?thesis by simp
  qed
qed

lemma tick_settled:
  assumes s: "settled g" and t: "tick inp g = Some (Inr r)"
  shows "settled (state_of r)"
proof -
  from t obtain r1 where e: "handle_events (events inp) g = Inr r1"
    by (auto simp: tick_def split: sum.splits)
  note s1 = handle_events_settled [OF s e]
  show ?thesis
  proof (cases r1)
    case (Returned g1)
    with t e have "r = Returned g1" by (simp add: tick_def)
    with s1 Returned show ?thesis by simp
  next
    case (Continue g1)
    show ?thesis
    proof (cases "paused g1")
      case True
      with t e Continue have "r = Continue g1" by (simp add: tick_def)
      with s1 Continue show ?thesis by simp
    next
      case False
      with t e Continue have
        "bind_c (make_move (ai_player g1)) (\<lambda>ai.
            bind_c (Some (if fall_due inp then fall_both inp (g1\<lparr> ai_player := ai \<rparr>)
                          else Inr (g1\<lparr> ai_player := ai \<rparr>))) (\<lambda>g2.
              Some (Inr (Continue
                (if game_over (human_player g2) \<or> game_over (ai_player g2)
                 then g2\<lparr> session_over := True \<rparr> else g2))))) = Some (Inr r)"
        by (simp add: tick_def)
      then obtain ai where
        "bind_c (Some (if fall_due inp then fall_both inp (g1\<lparr> ai_player := ai \<rparr>)
                          else Inr (g1\<lparr> ai_player := ai \<rparr>))) (\<lambda>g2.
              Some (Inr (Continue
                (if game_over (human_player g2) \<or> game_over (ai_player g2)
                 then g2\<lparr> session_over := True \<rparr> else g2)))) = Some (Inr r)"
        by (rule bind_c_InrE) blast
      then obtain g2 where
        "(Some (Inr (Continue
                (if game_over (human_player g2) \<or> game_over (ai_player g2)
                 then g2\<lparr> session_over := True \<rparr> else g2))) :: (error + game flow) option)
          = Some (Inr r)"
        by (rule bind_c_InrE) blast
      then have "r = Continue (if game_over (human_player g2) \<or> game_over (ai_player g2)
                 then g2\<lparr> session_over := True \<rparr> else g2)"
        by simp
      then show ?thesis by (simp add: settled_def)
    qed
  qed
qed

lemma run_states_settled:
  "settled g \<Longrightarrow> s \<in> set (run_states inps g) \<Longrightarrow> settled s"
proof (induction inps arbitrary: g)
  case Nil
  then show ?case by simp
next
  case (Cons inp inps)
  show ?case
  proof (cases "s = g")
    case True
    with Cons.prems show ?thesis by simp
  next
    case False
    with Cons.prems(2) have no: "\<not> session_over g" by (auto split: if_splits)
    from False Cons.prems(2) no obtain r where t: "tick inp g = Some (Inr r)"
      by (cases "tick inp g") (auto split: sum.splits)
    note s1 = tick_settled [OF Cons.prems(1) t]
    show ?thesis
    proof (cases r)
      case (Continue g1)
      with False Cons.prems(2) no t have "s \<in> set (run_states inps g1)" by simp
      from Cons.IH [OF _ this] s1 Continue show ?thesis by simp
    next
      case (Returned g1)
      with False Cons.prems(2) no t have "s = g1" by simp
      with s1 Returned show ?thesis by simp
    qed
  qed
qed

lemma run_states_over_last:
  "k < length (run_states inps g) \<Longrightarrow> session_over (run_states inps g ! k) \<Longrightarrow>
   Suc k = length (run_states inps g)"
proof (induction inps arbitrary: g k)
  case Nil
  then show ?case by simp
next
  case (Cons inp inps)
  show ?case
  proof (cases k)
    case 0
    with Cons.prems show ?thesis by simp
  next
    case (Suc j)
    with Cons.prems(1) have no: "\<not> session_over g" by (auto split: if_splits)
    from Suc Cons.prems(1) no obtain r where t: "tick inp g = Some (Inr r)"
      by (cases "tick inp g") (auto split: sum.splits)
    show ?thesis
    proof (cases r)
      case (Continue g1)
      with Cons.prems no t Suc have "j < length (run_states inps g1)"
        "session_over (run_states inps g1 ! j)" by simp_all
      from Cons.IH [OF this] Continue no t Suc show ?thesis by simp
    next
      case (Returned g1)
      with Cons.prems no t Suc show ?thesis by simp
    qed
  qed
qed

lemma run_loop_over: "session_over g \<Longrightarrow> run_loop inps g = Finished g"
  by (cases inps) simp_all

text \<open>
  Claim C9.  Take a run of the loop from a state in which the session is over if a side
  is (at the start of \<^verbatim>\<open>run\<close> no side is).  In every state of the run in which a
  side's \<^verbatim>\<open>game_over\<close> is true, the session flag is true as well: the iteration that
  sets the one sets the other.  A state in which the session flag is true is the last
  state of the run: no later iteration runs, the loop is left whatever inputs are
  still to come, and nothing changes a grid, a piece or a score any more.
\<close>

theorem run_over_same_tick:
  assumes "game_over (human_player g) \<or> game_over (ai_player g) \<longrightarrow> session_over g"
  shows "\<forall>k < length (run_states inps g).
           (game_over (human_player (run_states inps g ! k))
              \<or> game_over (ai_player (run_states inps g ! k))
            \<longrightarrow> session_over (run_states inps g ! k))
         \<and> (session_over (run_states inps g ! k)
            \<longrightarrow> Suc k = length (run_states inps g)
              \<and> run_loop inps' (run_states inps g ! k) = Finished (run_states inps g ! k))"
proof (intro allI impI conjI)
  fix k assume k: "k < length (run_states inps g)"
  from assms have "settled g" by (simp add: settled_def)
  from run_states_settled [OF this, of "run_states inps g ! k" inps] k
  have "settled (run_states inps g ! k)" by simp
  then show "session_over (run_states inps g ! k)"
    if "game_over (human_player (run_states inps g ! k))
          \<or> game_over (ai_player (run_states inps g ! k))"
    using that by (simp add: settled_def)
  show "Suc k = length (run_states inps g)" if "session_over (run_states inps g ! k)"
    by (rule run_states_over_last [OF k that])
  show "run_loop inps' (run_states inps g ! k) = Finished (run_states inps g ! k)"
    if "session_over (run_states inps g ! k)"
    by (rule run_loop_over [OF that])
qed

section \<open>A game that both sides lose\<close>

lemma square:
  "shape square = [[1, 1], [1, 1]]" "x square = 4" "y square = 0" "color square = gold"
  by (simp_all add: square_def Tetromino_def SHAPES_def SHAPE_COLORS_def GAME_WIDTH_def
      GRID_COLUMNS_def BLOCK_SIZE_def gold_def)

lemma crowded_piece: "current_piece crowded_player = square"
  by (simp add: crowded_player_def square_def)

lemma occupied_square: "occupied_cells [[1, 1], [1, 1]] = [(0, 0), (1, 0), (0, 1), (1, 1)]"
  by (simp add: occupied_cells_def)

lemma rotate_square: "rotate square = square"
proof -
  have "zip_star (rev [[1, 1], [1, 1 :: int]]) = [[1, 1], [1, 1]]"
    by (simp add: zip_star_def upt_rec [of _ 2] numeral_eq_Suc)
  then have "shape (rotate square) = shape square"
    by (simp add: rotate_def square)
  then show ?thesis
    by (simp add: rotate_def)
qed

lemma funpow_rotate_square: "(rotate ^^ r) square = square"
  by (induction r) (simp_all add: rotate_square)

lemma board_crowded: "board (grid crowded_player)"
  by (auto simp: crowded_player_def board_def GRID_ROWS_def GRID_COLUMNS_def top_row_def stack_row_def)

lemma proper_shape_square: "proper_shape (shape square)"
  by (simp add: proper_shape_def square occupied_square)

lemma crowded_row:
  "r < 20 \<Longrightarrow> grid crowded_player ! r = (if r < 2 then top_row else stack_row)"
  by (simp add: crowded_player_def nth_append)

lemma crowded_adjacent:
  assumes r: "r < 20" and k: "k < 9"
    and a: "grid crowded_player ! r ! k = BLACK" and b: "grid crowded_player ! r ! Suc k = BLACK"
  shows "k = 4"
proof -
  from k consider "k = 0" | "k = 1" | "k = 2" | "k = 3" | "k = 4" | "k = 5" | "k = 6" | "k = 7" | "k = 8"
    by linarith
  then show ?thesis
    using a b
    by cases (auto simp: crowded_row [OF r] top_row_def stack_row_def BLACK_def gold_def
              split: if_splits)
qed

lemma crowded_accepted:
  assumes "accepted (grid crowded_player) square c"
  shows "candidate square c = square"
proof -
  let ?g = "grid crowded_player"
  let ?p = "candidate square c"
  let ?q = "resting ?g ?p"
  have p: "?p = square\<lparr> x := 4 + snd c \<rparr>"
    by (simp add: candidate_def funpow_rotate_square square)
  have yq: "0 \<le> y ?q"
    by (simp add: resting_def p square)
  have xq: "x ?q = 4 + snd c"
    by (simp add: p)
  have sq: "shape ?p = [[1, 1], [1, 1]]"
    by (simp add: p square)
  have xp: "x ?p = 4 + snd c"
    by (simp add: p)
  from assms have "fits ?g ?q 0 0"
    by (simp add: accepted_def)
  then have f: "cell_free ?g (x ?q) (y ?q)" "cell_free ?g (x ?q + 1) (y ?q)"
    by (simp_all add: fits_cells sq occupied_square)
  from f yq have r: "nat (y ?q) < 20" and k: "nat (x ?q) < 9" and x0: "0 \<le> x ?q"
    by (auto simp: cell_free_def GRID_ROWS_def GRID_COLUMNS_def)
  from f yq x0 have a: "?g ! nat (y ?q) ! nat (x ?q) = BLACK"
    by (simp add: cell_free_def)
  from f yq x0 have "?g ! nat (y ?q) ! nat (x ?q + 1) = BLACK"
    by (simp add: cell_free_def)
  moreover from x0 have "nat (x ?q + 1) = Suc (nat (x ?q))"
    by simp
  ultimately have b: "?g ! nat (y ?q) ! Suc (nat (x ?q)) = BLACK"
    by simp
  from crowded_adjacent [OF r k a b] x0 have "x ?q = 4"
    by simp
  with xq have "snd c = 0" by simp
  then show ?thesis
    by (simp add: p square [symmetric])
qed

lemma make_move_crowded: "make_move crowded_player = Some (Inr crowded_player)"
proof -
  let ?g = "grid crowded_player"
  note cur = crowded_piece
  have ps: "proper_shape (shape (current_piece crowded_player))"
    by (simp add: cur proper_shape_square)
  from fold_update_best [of search_order ?g square "(0, x square)"]
  consider
    (none) "fold (update_best ?g square) search_order (None, 0, x square)
              = (None, 0, x square)"
  | (some) c where "accepted ?g square c"
      "fold (update_best ?g square) search_order (None, 0, x square)
         = (Some (candidate_score ?g square c), fst c, x square + snd c)"
    by blast
  then show ?thesis
  proof cases
    case none
    from make_move_fold [OF board_crowded ps none [folded cur]] show ?thesis
      by (simp add: cur)
  next
    case some
    from make_move_fold [OF board_crowded ps some(2) [folded cur]]
    have "make_move crowded_player
            = Some (Inr (crowded_player\<lparr> current_piece := candidate square c \<rparr>))"
      by (simp add: cur candidate_def)
    with crowded_accepted [OF some(1)] show ?thesis
      by (simp add: cur [symmetric])
  qed
qed

lemma fall_step_crowded:
  "fall_step 2 crowded_player = Inr (lost_player\<lparr> survival_time := 0 \<rparr>)"
  by code_simp

lemma crowded_piece_valid:
  "is_valid_move (current_piece crowded_player) 0 0 (grid crowded_player) = Inr True"
  by code_simp

lemma winners_agree_one_loser:
  assumes "game_over (human_player g) \<noteq> game_over (ai_player g)"
  shows "side_of (save_scores_winner g) = side_of (game_over_screen_winner g)"
  using assms by (auto simp: save_scores_winner_def game_over_screen_winner_def side_of_def)

lemma tick_crowded: "tick last_input crowded_game = Some (Inr (Continue both_lost))"
proof -
  have "fall_both last_input crowded_game
          = Inr (crowded_game\<lparr> human_player := lost_player, ai_player := lost_player \<rparr>)"
    by (simp add: fall_both_def last_input_def crowded_game_def fall_step_crowded lost_player_def)
  then show ?thesis
    by (simp add: tick_def last_input_def crowded_game_def make_move_crowded bind_c_def
        both_lost_def lost_player_def)
qed

text \<open>
  Claim C10 fails on the code.  From the crowded game one iteration with gravity locks
  both squares and neither new piece can spawn, so both sides' \<^verbatim>\<open>game_over\<close> are true
  when the loop ends; \<^verbatim>\<open>save_scores\<close> then records the automated player as the
  winner and the game-over screen shows the human player.
\<close>

theorem winners_disagree:
  "run_loop [last_input] crowded_game = Finished both_lost
   \<and> game_over (human_player both_lost) \<and> game_over (ai_player both_lost)
   \<and> save_scores_winner both_lost = ''AI''
   \<and> game_over_screen_winner both_lost = ''Human Player''
   \<and> side_of (save_scores_winner both_lost) = Some AI_side
   \<and> side_of (game_over_screen_winner both_lost) = Some Human_side"
proof -
  have "\<not> session_over crowded_game"
    by (simp add: crowded_game_def)
  then have "run_loop [last_input] crowded_game = Finished both_lost"
    by (simp add: tick_crowded run_loop_over both_lost_def)
  moreover have "game_over (human_player both_lost)" "game_over (ai_player both_lost)"
    by (simp_all add: both_lost_def lost_player_def)
  ultimately show ?thesis
    by (simp add: save_scores_winner_def game_over_screen_winner_def side_of_def)
qed

text \<open>
  Witness of C9: the run of the crowded game.
\<close>

theorem run_over_same_tick_witness:
  "run_states [last_input] crowded_game = [crowded_game, both_lost]
   \<and> session_over (run_states [last_input] crowded_game ! 1)
   \<and> Suc 1 = length (run_states [last_input] crowded_game)"
proof -
  have "\<not> session_over crowded_game"
    by (simp add: crowded_game_def)
  then have tr: "run_states [last_input] crowded_game = [crowded_game, both_lost]"
    by (simp add: tick_crowded)
  have s: "game_over (human_player crowded_game) \<or> game_over (ai_player crowded_game)
             \<longrightarrow> session_over crowded_game"
    by (simp add: crowded_game_def crowded_player_def)
  have l: "game_over (human_player both_lost)"
    by (simp add: both_lost_def lost_player_def)
  have "(1::nat) < length (run_states [last_input] crowded_game)"
    unfolding tr by simp
  with run_over_same_tick [OF s, of "[last_input]" "[]"]
  have "(game_over (human_player (run_states [last_input] crowded_game ! 1))
              \<or> game_over (ai_player (run_states [last_input] crowded_game ! 1))
            \<longrightarrow> session_over (run_states [last_input] crowded_game ! 1))
         \<and> (session_over (run_states [last_input] crowded_game ! 1)
            \<longrightarrow> Suc 1 = length (run_states [last_input] crowded_game)
              \<and> run_loop [] (run_states [last_input] crowded_game ! 1)
                  = Finished (run_states [last_input] crowded_game ! 1))"
    by blast
  with l show ?thesis
    unfolding tr by simp
qed

end
